theory Spec2Isabelle
  imports Complex_Main "HOL-Library.Log_Nat" "HOL-Library.Product_Lexorder"
begin

section \<open>JavaScript numbers\<close>

text \<open>
  The engine computes on JavaScript \<open>number\<close>s: IEEE-754 binary64 values. A finite number
  is modelled by the rational it denotes, and every arithmetic operation rounds its exact
  result to the nearest double, a tie going to the double with an even significand, and to
  an infinity beyond the range of the doubles.

  The doubles near a rational \<open>x\<close> are the integer multiples of \<open>2^k\<close>, where \<open>k\<close> gives
  53 significant bits in the binade of \<open>x\<close> and is never below \<open>-1074\<close> (the subnormal
  numbers). With \<open>N\<close> the integer part of \<open>|x| / 2^-1074\<close>, that \<open>k\<close> is the bit length of
  \<open>N\<close> minus \<open>53\<close>, counted from \<open>-1074\<close>.
\<close>

definition roundTiesToEven :: "rat \<Rightarrow> int" where
  "roundTiesToEven y =
     (let f = \<lfloor>y\<rfloor>; r = y - of_int f
      in if r < 1 / 2 then f else if 1 / 2 < r then f + 1 else if even f then f else f + 1)"

definition quantumExponent :: "rat \<Rightarrow> int" where
  "quantumExponent x = max 53 (bitlen \<lfloor>\<bar>x\<bar> * 2 ^ 1074\<rfloor>) - 1127"

definition nearest :: "rat \<Rightarrow> rat" where
  "nearest x =
     of_int (roundTiesToEven (x / 2 powi quantumExponent x)) * 2 powi quantumExponent x"

text \<open>
  A rational is (the value of) a finite double when rounding leaves it as it is and it is
  below \<open>2^1024\<close> in magnitude. The type \<open>double\<close> holds exactly these rationals.
\<close>

definition representable :: "rat \<Rightarrow> bool" where
  "representable x \<longleftrightarrow> nearest x = x \<and> \<bar>x\<bar> < 2 ^ 1024"

typedef double = "{x. representable x}"
  morphisms valueOf doubleOf
  by (rule exI[of _ 0]) (simp add: representable_def nearest_def roundTiesToEven_def)

setup_lifting type_definition_double

lift_definition toDouble :: "rat \<Rightarrow> double" is "\<lambda>x. if representable x then x else 0"
  by (simp add: representable_def nearest_def roundTiesToEven_def)

instantiation double :: equal
begin

lift_definition equal_double :: "double \<Rightarrow> double \<Rightarrow> bool" is "(=)" .

instance
  by standard (simp add: equal_double.rep_eq valueOf_inject)

end

text \<open>
  The two zeros \<open>+0\<close> and \<open>-0\<close> are one value; they are equal under \<open>===\<close>, \<open><\<close> and
  \<open><=\<close>, and the only operation that tells them apart, division by zero, is modelled
  for \<open>+0\<close>.
\<close>

datatype number = Fin double | PInf | NInf | NaN

text \<open>
  The number for a rational: the nearest double, or an infinity when the rounded value is
  out of range. It is also the number that a numeric literal denotes.
\<close>

definition num :: "rat \<Rightarrow> number" where
  "num x =
     (let y = nearest x
      in if 2 ^ 1024 \<le> \<bar>y\<bar> then (if 0 < x then PInf else NInf) else Fin (toDouble y))"

text \<open>The rational that a finite number denotes (\<open>0\<close> for the others).\<close>

fun val :: "number \<Rightarrow> rat" where
  "val (Fin a) = valueOf a"
| "val PInf = 0"
| "val NInf = 0"
| "val NaN = 0"

instantiation number :: "{zero, plus, uminus, minus, times, inverse, ord, abs}"
begin

definition zero_number :: number where
  "zero_number = num 0"

fun plus_number :: "number \<Rightarrow> number \<Rightarrow> number" where
  "plus_number (Fin a) (Fin b) = num (valueOf a + valueOf b)"
| "plus_number NaN _ = NaN"
| "plus_number _ NaN = NaN"
| "plus_number PInf NInf = NaN"
| "plus_number NInf PInf = NaN"
| "plus_number PInf _ = PInf"
| "plus_number _ PInf = PInf"
| "plus_number NInf _ = NInf"
| "plus_number _ NInf = NInf"

fun uminus_number :: "number \<Rightarrow> number" where
  "uminus_number (Fin a) = num (- valueOf a)"
| "uminus_number PInf = NInf"
| "uminus_number NInf = PInf"
| "uminus_number NaN = NaN"

fun minus_number :: "number \<Rightarrow> number \<Rightarrow> number" where
  "minus_number (Fin a) (Fin b) = num (valueOf a - valueOf b)"
| "minus_number NaN _ = NaN"
| "minus_number _ NaN = NaN"
| "minus_number PInf PInf = NaN"
| "minus_number NInf NInf = NaN"
| "minus_number PInf _ = PInf"
| "minus_number _ NInf = PInf"
| "minus_number NInf _ = NInf"
| "minus_number _ PInf = NInf"

fun times_number :: "number \<Rightarrow> number \<Rightarrow> number" where
  "times_number (Fin a) (Fin b) = num (valueOf a * valueOf b)"
| "times_number NaN _ = NaN"
| "times_number _ NaN = NaN"
| "times_number (Fin a) PInf =
     (if valueOf a = 0 then NaN else if 0 < valueOf a then PInf else NInf)"
| "times_number (Fin a) NInf =
     (if valueOf a = 0 then NaN else if 0 < valueOf a then NInf else PInf)"
| "times_number PInf (Fin b) =
     (if valueOf b = 0 then NaN else if 0 < valueOf b then PInf else NInf)"
| "times_number NInf (Fin b) =
     (if valueOf b = 0 then NaN else if 0 < valueOf b then NInf else PInf)"
| "times_number PInf PInf = PInf"
| "times_number NInf NInf = PInf"
| "times_number PInf NInf = NInf"
| "times_number NInf PInf = NInf"

fun inverse_number :: "number \<Rightarrow> number" where
  "inverse_number (Fin a) = (if valueOf a = 0 then PInf else num (1 / valueOf a))"
| "inverse_number PInf = num 0"
| "inverse_number NInf = num 0"
| "inverse_number NaN = NaN"

fun divide_number :: "number \<Rightarrow> number \<Rightarrow> number" where
  "divide_number (Fin a) (Fin b) =
     (if valueOf b = 0
      then (if valueOf a = 0 then NaN else if 0 < valueOf a then PInf else NInf)
      else num (valueOf a / valueOf b))"
| "divide_number NaN _ = NaN"
| "divide_number _ NaN = NaN"
| "divide_number (Fin a) PInf = num 0"
| "divide_number (Fin a) NInf = num 0"
| "divide_number PInf (Fin b) = (if 0 \<le> valueOf b then PInf else NInf)"
| "divide_number NInf (Fin b) = (if 0 \<le> valueOf b then NInf else PInf)"
| "divide_number PInf PInf = NaN"
| "divide_number PInf NInf = NaN"
| "divide_number NInf PInf = NaN"
| "divide_number NInf NInf = NaN"

fun less_number :: "number \<Rightarrow> number \<Rightarrow> bool" where
  "less_number (Fin a) (Fin b) = (valueOf a < valueOf b)"
| "less_number NaN _ = False"
| "less_number _ NaN = False"
| "less_number _ NInf = False"
| "less_number PInf _ = False"
| "less_number NInf _ = True"
| "less_number _ PInf = True"

fun less_eq_number :: "number \<Rightarrow> number \<Rightarrow> bool" where
  "less_eq_number (Fin a) (Fin b) = (valueOf a \<le> valueOf b)"
| "less_eq_number NaN _ = False"
| "less_eq_number _ NaN = False"
| "less_eq_number NInf _ = True"
| "less_eq_number _ PInf = True"
| "less_eq_number _ NInf = False"
| "less_eq_number PInf _ = False"

fun abs_number :: "number \<Rightarrow> number" where
  "abs_number (Fin a) = num \<bar>valueOf a\<bar>"
| "abs_number PInf = PInf"
| "abs_number NInf = PInf"
| "abs_number NaN = NaN"

instance ..

end

text \<open>\<open>a === b\<close> on numbers: \<open>NaN\<close> is not equal to itself.\<close>

definition strictEquals :: "number \<Rightarrow> number \<Rightarrow> bool" where
  "strictEquals a b = (a \<noteq> NaN \<and> a = b)"

text \<open>\<open>Number.isFinite\<close>.\<close>

fun isFinite :: "number \<Rightarrow> bool" where
  "isFinite (Fin a) = True"
| "isFinite PInf = False"
| "isFinite NInf = False"
| "isFinite NaN = False"

text \<open>
  \<open>Math.round\<close>: the nearest integer, a tie going towards \<open>+\<infinity>\<close>; a non-finite
  argument is returned as it is. (That integer is a double whenever the argument is:
  nothing is rounded a second time.)
\<close>

fun Math_round :: "number \<Rightarrow> number" where
  "Math_round (Fin a) = num (of_int \<lfloor>valueOf a + 1 / 2\<rfloor>)"
| "Math_round PInf = PInf"
| "Math_round NInf = NInf"
| "Math_round NaN = NaN"

text \<open>\<open>Math.min\<close> of two arguments: \<open>NaN\<close> if either is \<open>NaN\<close>.\<close>

definition Math_min :: "number \<Rightarrow> number \<Rightarrow> number" where
  "Math_min a b = (if a = NaN \<or> b = NaN then NaN else if a < b then a else b)"

text \<open>\<open>Math.abs\<close>.\<close>

definition Math_abs :: "number \<Rightarrow> number" where
  "Math_abs a = \<bar>a\<bar>"

text \<open>
  The sum of a list as JavaScript computes it in a loop or with \<open>reduce\<close> from \<open>0\<close>: from
  left to right, every addition rounded. (Addition of doubles is not associative.)
\<close>

definition sumNumbers :: "number list \<Rightarrow> number" where
  "sumNumbers xs = foldl (+) 0 xs"

section \<open>The data model (types.ts)\<close>

record Participant =
  id :: string
  name :: string

record ExpenseShare =
  participantId :: string
  amount :: number

record Expense =
  id :: string
  title :: string
  amount :: number
  payerId :: string
  shares :: "ExpenseShare list"

text \<open>The field \<open>from\<close> of the source is written in quotes, \<open>from\<close> being a keyword.\<close>

record SettlementEntry =
  "from" :: string
  to :: string
  amount :: number

section \<open>The balance calculator (settlement.ts)\<close>

text \<open>
  The source's types are structural: the ledger's values \<open>{participant, paid, shouldPay}\<close>,
  \<open>CalculatedBalance\<close> (these and \<open>diff\<close>) and \<open>RoundedBalance\<close>
  (\<open>CalculatedBalance & {roundedDiff}\<close>) are record extensions of one another.
\<close>

record LedgerEntry =
  participant :: Participant
  paid :: number
  shouldPay :: number

record CalculatedBalance = LedgerEntry +
  diff :: number

record RoundedBalance = CalculatedBalance +
  roundedDiff :: number

text \<open>
  The default value of the parameter \<open>unit\<close>: a call that omits the unit is the call
  with \<open>ROUNDING_UNIT\<close>.
\<close>

definition ROUNDING_UNIT :: number where
  "ROUNDING_UNIT = num 100"

definition roundToUnit :: "number \<Rightarrow> number \<Rightarrow> number" where
  "roundToUnit value unit =
     (if \<not> isFinite value then 0 else Math_round (value / unit) * unit)"

text \<open>
  The ledger is a JavaScript \<open>Map\<close>, which iterates in the order of first insertion of
  its keys: an association list with at most one pair for a key. \<open>ledger.set\<close> replaces
  the value of a key that is present where it stands, and appends a new key.
\<close>

type_synonym ledger = "(string \<times> LedgerEntry) list"

fun ledger_set :: "string \<Rightarrow> LedgerEntry \<Rightarrow> ledger \<Rightarrow> ledger" where
  "ledger_set k v [] = [(k, v)]"
| "ledger_set k v ((k', v') # rest) =
     (if k' = k then (k, v) # rest else (k', v') # ledger_set k v rest)"

definition ledger_get :: "ledger \<Rightarrow> string \<Rightarrow> LedgerEntry option" where
  "ledger_get ledger k = map_of ledger k"

definition ledger_values :: "ledger \<Rightarrow> LedgerEntry list" where
  "ledger_values ledger = map snd ledger"

text \<open>\<open>participants.forEach\<close>: one zeroed entry per participant id.\<close>

definition initLedger :: "Participant list \<Rightarrow> ledger" where
  "initLedger participants =
     foldl (\<lambda>ledger participant.
        ledger_set (Participant.id participant)
          \<lparr>participant = participant, paid = 0, shouldPay = 0\<rparr> ledger)
       [] participants"

text \<open>
  The body of \<open>expense.shares.forEach\<close>. \<open>holder\<close> is the object stored in the map,
  so \<open>holder.shouldPay += share.amount\<close> updates the entry of that key.
\<close>

definition applyShare :: "ledger \<Rightarrow> ExpenseShare \<Rightarrow> ledger" where
  "applyShare ledger share =
     (case ledger_get ledger (participantId share) of
        None \<Rightarrow> ledger
      | Some holder \<Rightarrow>
          ledger_set (participantId share)
            (holder\<lparr>shouldPay := shouldPay holder + ExpenseShare.amount share\<rparr>) ledger)"

text \<open>The body of \<open>expenses.forEach\<close>.\<close>

definition applyExpense :: "ledger \<Rightarrow> Expense \<Rightarrow> ledger" where
  "applyExpense ledger expense =
     (if Expense.amount expense \<le> 0 then ledger
      else
        let ledger1 =
          (case ledger_get ledger (payerId expense) of
             Some payer \<Rightarrow>
               ledger_set (payerId expense)
                 (payer\<lparr>paid := paid payer + Expense.amount expense\<rparr>) ledger
           | None \<Rightarrow> ledger)
        in foldl applyShare ledger1 (shares expense))"

text \<open>The ledger after both \<open>forEach\<close> loops: the accumulated, unrounded amounts.\<close>

definition accumulate :: "Participant list \<Rightarrow> Expense list \<Rightarrow> ledger" where
  "accumulate participants expenses = foldl applyExpense (initLedger participants) expenses"

text \<open>The callback of the final \<open>map\<close>.\<close>

definition finalize :: "LedgerEntry \<Rightarrow> CalculatedBalance" where
  "finalize entry =
     (let paid' = Math_round (paid entry);
          shouldPay' = Math_round (shouldPay entry);
          diff' = paid' - shouldPay'
      in \<lparr>participant = participant entry, paid = paid', shouldPay = shouldPay',
          diff = diff'\<rparr>)"

definition calculateBalances :: "Participant list \<Rightarrow> Expense list \<Rightarrow> CalculatedBalance list" where
  "calculateBalances participants expenses =
     map finalize (ledger_values (accumulate participants expenses))"

section \<open>The rounding normalizer\<close>

text \<open>
  \<open>xs.reduce((acc, x) => better(x, acc) ? x : acc)\<close> without an initial value returns
  one of the objects of the array: the accumulator starts as the first element and is
  replaced by a later element that is better. \<open>reduceIndex\<close> is the index of the
  object returned. (On an empty array the source's \<open>reduce\<close> throws; it is only called
  under \<open>rounded.length > 0\<close>.)
\<close>

definition reduceIndex :: "('a \<Rightarrow> 'a \<Rightarrow> bool) \<Rightarrow> 'a list \<Rightarrow> nat" where
  "reduceIndex better xs =
     foldl (\<lambda>acc i. if better (xs ! i) (xs ! acc) then i else acc) 0 [1..<length xs]"

text \<open>\<open>target.roundedDiff -= totalRounded\<close>, on the object at index \<open>i\<close>.\<close>

definition subtractAt :: "nat \<Rightarrow> number \<Rightarrow> RoundedBalance list \<Rightarrow> RoundedBalance list" where
  "subtractAt i totalRounded rounded =
     rounded[i := (rounded ! i)\<lparr>roundedDiff := roundedDiff (rounded ! i) - totalRounded\<rparr>]"

text \<open>The first statement: every balance with its \<open>diff\<close> rounded to the unit.\<close>

definition roundEach :: "CalculatedBalance list \<Rightarrow> number \<Rightarrow> RoundedBalance list" where
  "roundEach balances unit =
     map (\<lambda>balance. CalculatedBalance.extend balance
            (RoundedBalance.fields (roundToUnit (diff balance) unit))) balances"

definition totalRoundedOf :: "RoundedBalance list \<Rightarrow> number" where
  "totalRoundedOf rounded = foldl (\<lambda>sum balance. sum + roundedDiff balance) 0 rounded"

definition roundBalancesToUnit :: "CalculatedBalance list \<Rightarrow> number \<Rightarrow> RoundedBalance list" where
  "roundBalancesToUnit balances unit =
     (let rounded = roundEach balances unit;
          totalRounded = totalRoundedOf rounded
      in if \<not> strictEquals totalRounded 0 \<and> length rounded > 0 then
           (if totalRounded > 0 then
              subtractAt
                (reduceIndex (\<lambda>balance max. roundedDiff balance > roundedDiff max) rounded)
                totalRounded rounded
            else
              subtractAt
                (reduceIndex (\<lambda>balance min. roundedDiff balance < roundedDiff min) rounded)
                totalRounded rounded)
         else rounded)"

section \<open>The settlement planner\<close>

text \<open>The elements \<open>{id, amount}\<close> of the arrays \<open>debtors\<close> and \<open>creditors\<close>.\<close>

record Pending =
  id :: string
  amount :: number

text \<open>The body of \<open>balances.forEach\<close>, on the pair of arrays.\<close>

definition classify ::
  "Pending list \<times> Pending list \<Rightarrow> RoundedBalance \<Rightarrow> Pending list \<times> Pending list" where
  "classify dc balance =
     (case dc of (debtors, creditors) \<Rightarrow>
        if roundedDiff balance > 0 then
          (debtors,
           creditors @ [\<lparr>id = Participant.id (participant balance), amount = roundedDiff balance\<rparr>])
        else if roundedDiff balance < 0 then
          (debtors @ [\<lparr>id = Participant.id (participant balance),
                       amount = Math_abs (roundedDiff balance)\<rparr>],
           creditors)
        else (debtors, creditors))"

text \<open>The variables of the \<open>while\<close> loop.\<close>

record LoopState =
  debtors :: "Pending list"
  creditors :: "Pending list"
  settlements :: "SettlementEntry list"
  debtorIndex :: nat
  creditorIndex :: nat

definition loopCondition :: "LoopState \<Rightarrow> bool" where
  "loopCondition s =
     (debtorIndex s < length (debtors s) \<and> creditorIndex s < length (creditors s))"

text \<open>One pass through the body of the loop.\<close>

definition loopBody :: "LoopState \<Rightarrow> LoopState" where
  "loopBody s =
     (let debtor = debtors s ! debtorIndex s;
          creditor = creditors s ! creditorIndex s;
          amount = Math_min (Pending.amount debtor) (Pending.amount creditor);
          settlements' =
            (if amount > 0
             then settlements s @ [\<lparr>from = Pending.id debtor, to = Pending.id creditor, amount = amount\<rparr>]
             else settlements s);
          debtor' = debtor\<lparr>Pending.amount := Pending.amount debtor - amount\<rparr>;
          creditor' = creditor\<lparr>Pending.amount := Pending.amount creditor - amount\<rparr>
      in \<lparr>debtors = (debtors s)[debtorIndex s := debtor'],
          creditors = (creditors s)[creditorIndex s := creditor'],
          settlements = settlements',
          debtorIndex =
            (if strictEquals (Pending.amount debtor') 0 then debtorIndex s + 1 else debtorIndex s),
          creditorIndex =
            (if strictEquals (Pending.amount creditor') 0 then creditorIndex s + 1
             else creditorIndex s)\<rparr>)"

text \<open>
  The loop. It need not end (two infinite amounts meet, their difference is \<open>NaN\<close> and
  no cursor moves again): \<open>None\<close> is the run that never returns.
\<close>

partial_function (option) settleLoop :: "LoopState \<Rightarrow> LoopState option" where
  "settleLoop s = (if loopCondition s then settleLoop (loopBody s) else Some s)"

declare settleLoop.simps [code]

definition initialState :: "RoundedBalance list \<Rightarrow> LoopState" where
  "initialState balances =
     (case foldl classify ([], []) balances of (ds, cs) \<Rightarrow>
        \<lparr>debtors = ds, creditors = cs, settlements = [],
         debtorIndex = 0, creditorIndex = 0\<rparr>)"

definition buildSettlementPlan :: "RoundedBalance list \<Rightarrow> SettlementEntry list option" where
  "buildSettlementPlan balances = map_option settlements (settleLoop (initialState balances))"

section \<open>Notions used to state the properties\<close>

text \<open>
  An expense is counted when it passes the guard \<open>if (expense.amount <= 0) return\<close>.
\<close>

definition counted :: "Expense \<Rightarrow> bool" where
  "counted expense = (\<not> Expense.amount expense \<le> 0)"

text \<open>
  The amounts that are added to the \<open>paid\<close> and to the \<open>shouldPay\<close> of a participant id,
  in the order in which the two \<open>forEach\<close> loops meet them: the amounts of the counted
  expenses paid by that id, and the amounts of the shares of that id in the counted
  expenses.
\<close>

definition paidAmounts :: "string \<Rightarrow> Expense list \<Rightarrow> number list" where
  "paidAmounts pid expenses =
     map Expense.amount (filter (\<lambda>e. counted e \<and> payerId e = pid) expenses)"

definition owedAmounts :: "string \<Rightarrow> Expense list \<Rightarrow> number list" where
  "owedAmounts pid expenses =
     map ExpenseShare.amount
       (filter (\<lambda>share. participantId share = pid) (concat (map shares (filter counted expenses))))"

text \<open>The ledger entry a participant starts with, and the balance these amounts give.\<close>

definition zeroEntry :: "Participant \<Rightarrow> LedgerEntry" where
  "zeroEntry p = \<lparr>participant = p, paid = 0, shouldPay = 0\<rparr>"

definition expectedBalance :: "Participant \<Rightarrow> Expense list \<Rightarrow> CalculatedBalance" where
  "expectedBalance p expenses =
     \<lparr>participant = p,
      paid = Math_round (sumNumbers (paidAmounts (Participant.id p) expenses)),
      shouldPay = Math_round (sumNumbers (owedAmounts (Participant.id p) expenses)),
      diff = Math_round (sumNumbers (paidAmounts (Participant.id p) expenses))
               - Math_round (sumNumbers (owedAmounts (Participant.id p) expenses))\<rparr>"

text \<open>
  The balance as claim C3 words it: sums over the expenses with \<open>amount > 0\<close>.
\<close>

definition claimedPaid :: "string \<Rightarrow> Expense list \<Rightarrow> number" where
  "claimedPaid pid expenses =
     sumNumbers (map Expense.amount
       (filter (\<lambda>e. 0 < Expense.amount e \<and> payerId e = pid) expenses))"

definition claimedOwed :: "string \<Rightarrow> Expense list \<Rightarrow> number" where
  "claimedOwed pid expenses =
     sumNumbers (map ExpenseShare.amount
       (filter (\<lambda>share. participantId share = pid)
          (concat (map shares (filter (\<lambda>e. 0 < Expense.amount e) expenses)))))"

definition claimedBalance :: "Participant \<Rightarrow> Expense list \<Rightarrow> CalculatedBalance" where
  "claimedBalance p expenses =
     \<lparr>participant = p,
      paid = Math_round (claimedPaid (Participant.id p) expenses),
      shouldPay = Math_round (claimedOwed (Participant.id p) expenses),
      diff = Math_round (claimedPaid (Participant.id p) expenses)
               - Math_round (claimedOwed (Participant.id p) expenses)\<rparr>"

text \<open>
  Rounding to the nearest integer with a tie going away from zero, as claim C6 words
  the final rounding.
\<close>

fun roundHalfAwayFromZero :: "number \<Rightarrow> number" where
  "roundHalfAwayFromZero (Fin a) =
     (if 0 \<le> valueOf a then num (of_int \<lfloor>valueOf a + 1 / 2\<rfloor>)
      else num (- of_int \<lfloor>- valueOf a + 1 / 2\<rfloor>))"
| "roundHalfAwayFromZero PInf = PInf"
| "roundHalfAwayFromZero NInf = NInf"
| "roundHalfAwayFromZero NaN = NaN"

text \<open>
  Whole numbers, and lists of whole numbers on which sums are exact: the positive
  elements add up to at most \<open>2^53\<close> and the negative ones to at least \<open>-2^53\<close>, so the
  sum of any part of the list is an integer that is a double.
\<close>

fun isInteger :: "number \<Rightarrow> bool" where
  "isInteger (Fin a) = (of_int \<lfloor>valueOf a\<rfloor> = valueOf a)"
| "isInteger PInf = False"
| "isInteger NInf = False"
| "isInteger NaN = False"

definition positiveSum :: "number list \<Rightarrow> rat" where
  "positiveSum xs = sum_list (map (\<lambda>x. max 0 (val x)) xs)"

definition negativeSum :: "number list \<Rightarrow> rat" where
  "negativeSum xs = sum_list (map (\<lambda>x. max 0 (- val x)) xs)"

definition safeIntegers :: "number list \<Rightarrow> bool" where
  "safeIntegers xs \<longleftrightarrow>
     (\<forall>x\<in>set xs. isInteger x) \<and> positiveSum xs \<le> 2 ^ 53 \<and> negativeSum xs \<le> 2 ^ 53"

text \<open>
  A position of the numbers other than \<open>NaN\<close> in a linear order that agrees with \<open><\<close>
  and \<open><=\<close> on them.
\<close>

fun rank :: "number \<Rightarrow> nat \<times> rat" where
  "rank NInf = (0, 0)"
| "rank (Fin a) = (1, valueOf a)"
| "rank PInf = (2, 0)"
| "rank NaN = (3, 0)"

text \<open>
  The part of an array that the loop can still read: the elements from the cursor on.
\<close>

definition pendingDebtors :: "LoopState \<Rightarrow> Pending list" where
  "pendingDebtors s = drop (debtorIndex s) (debtors s)"

definition pendingCreditors :: "LoopState \<Rightarrow> Pending list" where
  "pendingCreditors s = drop (creditorIndex s) (creditors s)"

text \<open>
  The loop as a recursion on these two lists. One pass transfers the smaller of the two
  front amounts; a front element leaves its list when its amount has become \<open>0\<close>. When
  neither does, an amount has become \<open>NaN\<close> and the loop never ends: the result is
  \<open>None\<close>. Otherwise the result holds the entries emitted and what is left of the lists.
  That the loop of the source computes exactly this is proved below
  (\<open>settleLoop_greedy_Some\<close>, \<open>settleLoop_greedy_None\<close>).
\<close>

function greedy ::
  "Pending list \<Rightarrow> Pending list \<Rightarrow> (SettlementEntry list \<times> Pending list \<times> Pending list) option" where
  "greedy [] cs = Some ([], [], cs)"
| "greedy (d # ds) [] = Some ([], d # ds, [])"
| "greedy (d # ds) (c # cs) =
     (let a = Math_min (Pending.amount d) (Pending.amount c);
          d' = Pending.amount d - a;
          c' = Pending.amount c - a
      in if strictEquals d' 0 \<or> strictEquals c' 0 then
           map_option
             (\<lambda>(es, dl, cl).
                ((if a > 0 then [\<lparr>from = Pending.id d, to = Pending.id c, amount = a\<rparr>] else []) @ es,
                 dl, cl))
             (greedy (if strictEquals d' 0 then ds else d\<lparr>Pending.amount := d'\<rparr> # ds)
                     (if strictEquals c' 0 then cs else c\<lparr>Pending.amount := c'\<rparr> # cs))
         else None)"
  by pat_completeness auto
termination
  by (relation "measure (\<lambda>(ds, cs). length ds + length cs)") auto

text \<open>A state in which the loop never ends: a front amount is \<open>NaN\<close>.\<close>

definition stuck :: "LoopState \<Rightarrow> bool" where
  "stuck s \<longleftrightarrow>
     (\<exists>d ds c cs. pendingDebtors s = d # ds \<and> pendingCreditors s = c # cs \<and>
        (Pending.amount d = NaN \<or> Pending.amount c = NaN))"

text \<open>
  The state of the loop after \<open>n\<close> passes, or its final state when it has ended before:
  the entries emitted so far are the \<open>settlements\<close> of these states, also in a run that
  never ends.
\<close>

fun passes :: "nat \<Rightarrow> LoopState \<Rightarrow> LoopState" where
  "passes 0 s = s"
| "passes (Suc n) s = (if loopCondition s then passes n (loopBody s) else s)"

text \<open>
  Two invariants of the passes. The entries emitted so far have a positive amount, a
  payer among the debtors and a payee among the creditors. And their number leaves room
  for what is pending: it is below the number of debtors and creditors by at least the
  number of pending elements (by at least one when nothing is pending), also once the
  loop is stuck.
\<close>

definition entriesSound :: "LoopState \<Rightarrow> bool" where
  "entriesSound s \<longleftrightarrow>
     (\<forall>e\<in>set (settlements s). 0 < SettlementEntry.amount e \<and>
        from e \<in> set (map Pending.id (debtors s)) \<and> to e \<in> set (map Pending.id (creditors s)))"

definition withinBudget :: "LoopState \<Rightarrow> bool" where
  "withinBudget s \<longleftrightarrow>
     ((\<forall>x\<in>set (pendingDebtors s). 0 < Pending.amount x) \<and>
      (\<forall>x\<in>set (pendingCreditors s). 0 < Pending.amount x) \<and>
      length (settlements s) + max 1 (length (pendingDebtors s) + length (pendingCreditors s))
        \<le> length (debtors s) + length (creditors s)) \<or>
     (stuck s \<and> length (settlements s) + 1 \<le> length (debtors s) + length (creditors s))"

text \<open>The arrays \<open>debtors\<close> and \<open>creditors\<close> as built by \<open>balances.forEach\<close>.\<close>

definition debtorsOf :: "RoundedBalance list \<Rightarrow> Pending list" where
  "debtorsOf balances =
     map (\<lambda>balance. \<lparr>id = Participant.id (participant balance),
                       amount = Math_abs (roundedDiff balance)\<rparr>)
       (filter (\<lambda>balance. roundedDiff balance < 0) balances)"

definition creditorsOf :: "RoundedBalance list \<Rightarrow> Pending list" where
  "creditorsOf balances =
     map (\<lambda>balance. \<lparr>id = Participant.id (participant balance), amount = roundedDiff balance\<rparr>)
       (filter (\<lambda>balance. 0 < roundedDiff balance) balances)"

text \<open>Pending elements whose amounts are positive whole numbers up to \<open>2^53\<close>.\<close>

definition wholeAmounts :: "Pending list \<Rightarrow> bool" where
  "wholeAmounts xs \<longleftrightarrow>
     (\<forall>x\<in>set xs. isInteger (Pending.amount x) \<and> 0 < Pending.amount x \<and>
        val (Pending.amount x) \<le> 2 ^ 53)"

text \<open>
  Exact sums, on the rationals that the amounts denote: of the pending elements whose id
  satisfies \<open>Q\<close>, and of the entries whose payer, or whose payee, does.
\<close>

definition weight :: "(string \<Rightarrow> bool) \<Rightarrow> Pending list \<Rightarrow> rat" where
  "weight Q xs = sum_list (map (\<lambda>x. if Q (Pending.id x) then val (Pending.amount x) else 0) xs)"

definition sent :: "(string \<Rightarrow> bool) \<Rightarrow> SettlementEntry list \<Rightarrow> rat" where
  "sent Q es = sum_list (map (\<lambda>e. if Q (from e) then val (SettlementEntry.amount e) else 0) es)"

definition received :: "(string \<Rightarrow> bool) \<Rightarrow> SettlementEntry list \<Rightarrow> rat" where
  "received Q es = sum_list (map (\<lambda>e. if Q (to e) then val (SettlementEntry.amount e) else 0) es)"

text \<open>
  The total of the positive rounded diffs and the total of the magnitudes of the negative
  ones, summed in list order.
\<close>

definition creditTotal :: "RoundedBalance list \<Rightarrow> number" where
  "creditTotal balances =
     sumNumbers (map roundedDiff (filter (\<lambda>b. 0 < roundedDiff b) balances))"

definition debitTotal :: "RoundedBalance list \<Rightarrow> number" where
  "debitTotal balances =
     sumNumbers (map (\<lambda>b. Math_abs (roundedDiff b)) (filter (\<lambda>b. roundedDiff b < 0) balances))"

text \<open>
  The balance of a participant id in a list of balances, what that id pays and receives
  in a list of entries, and its balance after the transfers: a payment raises the payer's
  balance (the payer owes less) and lowers the payee's.
\<close>

definition balanceOfId :: "string \<Rightarrow> RoundedBalance list \<Rightarrow> number" where
  "balanceOfId p balances =
     sumNumbers (map roundedDiff (filter (\<lambda>b. Participant.id (participant b) = p) balances))"

definition sentBy :: "string \<Rightarrow> SettlementEntry list \<Rightarrow> number" where
  "sentBy p es = sumNumbers (map SettlementEntry.amount (filter (\<lambda>e. from e = p) es))"

definition receivedBy :: "string \<Rightarrow> SettlementEntry list \<Rightarrow> number" where
  "receivedBy p es = sumNumbers (map SettlementEntry.amount (filter (\<lambda>e. to e = p) es))"

definition settledBalance :: "string \<Rightarrow> RoundedBalance list \<Rightarrow> SettlementEntry list \<Rightarrow> number" where
  "settledBalance p balances es = balanceOfId p balances + sentBy p es - receivedBy p es"

text \<open>
  The balance after the transfers as claim C1 words it: the amount subtracted from the
  payer's balance and added to the payee's.
\<close>

definition statedBalance :: "string \<Rightarrow> RoundedBalance list \<Rightarrow> SettlementEntry list \<Rightarrow> number" where
  "statedBalance p balances es = balanceOfId p balances - sentBy p es + receivedBy p es"

section \<open>Example inputs\<close>

definition alice :: Participant where
  "alice = \<lparr>Participant.id = ''a'', name = ''Alice''\<rparr>"

definition bob :: Participant where
  "bob = \<lparr>Participant.id = ''b'', name = ''Bob''\<rparr>"

definition carol :: Participant where
  "carol = \<lparr>Participant.id = ''c'', name = ''Carol''\<rparr>"

definition dave :: Participant where
  "dave = \<lparr>Participant.id = ''d'', name = ''Dave''\<rparr>"

definition balanceOf :: "Participant \<Rightarrow> number \<Rightarrow> number \<Rightarrow> CalculatedBalance" where
  "balanceOf p x y = \<lparr>participant = p, paid = x, shouldPay = y, diff = x - y\<rparr>"

text \<open>Diffs \<open>150, 150, -100\<close>: rounded to \<open>200, 200, -100\<close>, a drift of \<open>300\<close>.\<close>

definition surplusBalances :: "CalculatedBalance list" where
  "surplusBalances =
     [balanceOf alice (num 150) 0, balanceOf bob (num 150) 0, balanceOf carol 0 (num 100)]"

text \<open>
  Diffs \<open>-150, -150, 100\<close>: rounded to \<open>-100, -100, 100\<close> (a tie is rounded up), a
  drift of \<open>-100\<close>.
\<close>

definition deficitBalances :: "CalculatedBalance list" where
  "deficitBalances =
     [balanceOf alice 0 (num 150), balanceOf bob 0 (num 150), balanceOf carol (num 100) 0]"

text \<open>Diffs \<open>2^53, 1, 1\<close>, to be rounded to the unit \<open>1\<close>.\<close>

definition largeBalances :: "CalculatedBalance list" where
  "largeBalances =
     [balanceOf alice (num (2 ^ 53)) 0, balanceOf bob (num 1) 0, balanceOf carol (num 1) 0]"

text \<open>Diffs \<open>+\<infinity>, +\<infinity>, 300\<close>.\<close>

definition infiniteDiffs :: "CalculatedBalance list" where
  "infiniteDiffs =
     [balanceOf alice PInf 0, balanceOf bob PInf 0, balanceOf carol (num 300) 0]"

text \<open>One expense of \<open>3000\<close> paid by Alice and shared equally by the three.\<close>

definition dinner :: Expense where
  "dinner = \<lparr>Expense.id = ''e1'', title = ''dinner'', amount = num 3000, payerId = ''a'',
     shares = [\<lparr>participantId = ''a'', amount = num 1000\<rparr>,
               \<lparr>participantId = ''b'', amount = num 1000\<rparr>,
               \<lparr>participantId = ''c'', amount = num 1000\<rparr>]\<rparr>"

text \<open>An expense whose amount is \<open>NaN\<close>, paid by Alice.\<close>

definition nanExpense :: Expense where
  "nanExpense = \<lparr>Expense.id = ''e2'', title = ''unparsed'', amount = NaN, payerId = ''a'',
     shares = []\<rparr>"

text \<open>
  Three expenses of \<open>2^53\<close>, \<open>1\<close> and \<open>1\<close>, each paid by Alice and owed by Bob.
\<close>

definition largeExpenses :: "Expense list" where
  "largeExpenses =
     [\<lparr>Expense.id = ''e6'', title = ''house'', amount = num (2 ^ 53), payerId = ''a'',
        shares = [\<lparr>participantId = ''b'', amount = num (2 ^ 53)\<rparr>]\<rparr>,
      \<lparr>Expense.id = ''e7'', title = ''stamp'', amount = num 1, payerId = ''a'',
        shares = [\<lparr>participantId = ''b'', amount = num 1\<rparr>]\<rparr>,
      \<lparr>Expense.id = ''e8'', title = ''stamp'', amount = num 1, payerId = ''a'',
        shares = [\<lparr>participantId = ''b'', amount = num 1\<rparr>]\<rparr>]"

text \<open>An expense of \<open>1\<close> whose only share is \<open>-2.5\<close>, for Alice.\<close>

definition refund :: Expense where
  "refund = \<lparr>Expense.id = ''e3'', title = ''refund'', amount = num 1, payerId = ''a'',
     shares = [\<lparr>participantId = ''a'', amount = num (- 5 / 2)\<rparr>]\<rparr>"

text \<open>
  The dinner, an expense with a negative amount, and an expense paid by an unknown id,
  one of whose two shares names an unknown id.
\<close>

definition strayExpenses :: "Expense list" where
  "strayExpenses =
     [dinner,
      \<lparr>Expense.id = ''e4'', title = ''void'', amount = num (- 500), payerId = ''a'',
        shares = [\<lparr>participantId = ''b'', amount = num (- 500)\<rparr>]\<rparr>,
      \<lparr>Expense.id = ''e5'', title = ''guest'', amount = num 900, payerId = ''z'',
        shares = [\<lparr>participantId = ''b'', amount = num 400\<rparr>,
                  \<lparr>participantId = ''y'', amount = num 500\<rparr>]\<rparr>]"

text \<open>Balances the first of which has the diff \<open>NaN\<close>.\<close>

definition nonFiniteBalances :: "CalculatedBalance list" where
  "nonFiniteBalances =
     [balanceOf alice NaN 0, balanceOf bob (num 150) 0, balanceOf carol 0 (num 100)]"

text \<open>Rounded balances given by their rounded diff alone.\<close>

definition roundedOf :: "Participant \<Rightarrow> number \<Rightarrow> RoundedBalance" where
  "roundedOf p d = \<lparr>participant = p, paid = 0, shouldPay = 0, diff = d, roundedDiff = d\<rparr>"

text \<open>The balances of the dinner: \<open>2000, -1000, -1000\<close>.\<close>

definition zeroSumBalances :: "RoundedBalance list" where
  "zeroSumBalances =
     [roundedOf alice (num 2000), roundedOf bob (num (- 1000)), roundedOf carol (num (- 1000))]"

text \<open>Balances whose positive total \<open>300\<close> exceeds the negative total \<open>200\<close>.\<close>

definition unequalBalances :: "RoundedBalance list" where
  "unequalBalances =
     [roundedOf alice (num 300), roundedOf bob (num (- 100)), roundedOf carol (num (- 100))]"

text \<open>Two balances of the same participant, \<open>5\<close> and \<open>-5\<close>.\<close>

definition duplicateBalances :: "RoundedBalance list" where
  "duplicateBalances = [roundedOf alice (num 5), roundedOf alice (num (- 5))]"

text \<open>An infinite credit facing an infinite debt.\<close>

definition infiniteBalances :: "RoundedBalance list" where
  "infiniteBalances = [roundedOf alice PInf, roundedOf bob NInf]"

text \<open>
  Whole balances \<open>1, 1, 2^53, -(2^53 + 2)\<close>: their sum is \<open>0\<close>, exactly and as JavaScript
  adds them.
\<close>

definition largeZeroSum :: "RoundedBalance list" where
  "largeZeroSum =
     [roundedOf alice (num 1), roundedOf bob (num 1), roundedOf carol (num (2 ^ 53)),
      roundedOf dave (num (- (2 ^ 53 + 2)))]"

text \<open>
  Whole balances \<open>2^53 + 2, -1, -1, -(2^53 + 2)\<close>: a credit of \<open>2^53 + 2\<close> against debts
  of \<open>2^53 + 4\<close>.
\<close>

definition largeUnequal :: "RoundedBalance list" where
  "largeUnequal =
     [roundedOf alice (num (2 ^ 53 + 2)), roundedOf bob (num (- 1)), roundedOf carol (num (- 1)),
      roundedOf dave (num (- (2 ^ 53 + 2)))]"

text \<open>
  The same two lists scaled by \<open>2^-52\<close>: balances \<open>2^-52, 2^-52, 2, -(2 + 2^-51)\<close>, and
  a credit of \<open>2 + 2^-51\<close> against debts of \<open>2^-52, 2^-52, 2 + 2^-51\<close>. All are doubles
  and all are small, but they are not whole numbers.
\<close>

definition fractionalZeroSum :: "RoundedBalance list" where
  "fractionalZeroSum =
     [roundedOf alice (num (1 / 2 ^ 52)), roundedOf bob (num (1 / 2 ^ 52)),
      roundedOf carol (num 2), roundedOf dave (num (- (2 + 1 / 2 ^ 51)))]"

definition fractionalUnequal :: "RoundedBalance list" where
  "fractionalUnequal =
     [roundedOf alice (num (2 + 1 / 2 ^ 51)), roundedOf bob (num (- (1 / 2 ^ 52))),
      roundedOf carol (num (- (1 / 2 ^ 52))), roundedOf dave (num (- (2 + 1 / 2 ^ 51)))]"

section \<open>Facts about numbers\<close>

subsection \<open>Rounding to the nearest double\<close>

lemma roundTiesToEven_of_int [simp]: "roundTiesToEven (of_int n) = n"
  by (simp add: roundTiesToEven_def)

lemma roundTiesToEven_cases:
  "roundTiesToEven y = \<lfloor>y\<rfloor> \<or> (roundTiesToEven y = \<lfloor>y\<rfloor> + 1 \<and> of_int \<lfloor>y\<rfloor> < y)"
  by (auto simp: roundTiesToEven_def Let_def)

lemma roundTiesToEven_ge: "of_int n \<le> y \<Longrightarrow> n \<le> roundTiesToEven y"
proof -
  assume "of_int n \<le> y"
  then have "n \<le> \<lfloor>y\<rfloor>" by (simp add: le_floor_iff)
  then show ?thesis using roundTiesToEven_cases[of y] by auto
qed

lemma roundTiesToEven_le: "y \<le> of_int n \<Longrightarrow> roundTiesToEven y \<le> n"
proof -
  assume a: "y \<le> of_int n"
  then have f: "\<lfloor>y\<rfloor> \<le> n" by (simp add: floor_le_iff) 
  from roundTiesToEven_cases[of y] show ?thesis
  proof
    assume "roundTiesToEven y = \<lfloor>y\<rfloor>" then show ?thesis using f by simp
  next
    assume b: "roundTiesToEven y = \<lfloor>y\<rfloor> + 1 \<and> of_int \<lfloor>y\<rfloor> < y"
    then have "of_int \<lfloor>y\<rfloor> < (of_int n :: rat)" using a by linarith
    then have "\<lfloor>y\<rfloor> < n" by simp
    then show ?thesis using b by simp
  qed
qed

lemma roundTiesToEven_minus: "roundTiesToEven (- y) = - roundTiesToEven y"
proof (cases "of_int \<lfloor>y\<rfloor> = y")
  case True
  then obtain n where "y = of_int n" by metis
  then show ?thesis by (simp flip: of_int_minus)
next
  case False
  then have lt: "of_int \<lfloor>y\<rfloor> < y" by (simp add: order.not_eq_order_implies_strict)
  have "y < of_int \<lfloor>y\<rfloor> + 1" by linarith
  then have fl: "\<lfloor>- y\<rfloor> = - \<lfloor>y\<rfloor> - 1" using lt by (intro floor_unique) simp_all
  show ?thesis
    using lt by (simp add: roundTiesToEven_def Let_def fl)
qed

lemma quantumExponent_ge: "- 1074 \<le> quantumExponent x"
  by (simp add: quantumExponent_def)

lemma quantumExponent_minus [simp]: "quantumExponent (- x) = quantumExponent x"
  by (simp add: quantumExponent_def)

lemma quantumExponent_upper: "\<bar>x\<bar> < 2 powi (quantumExponent x + 53)"
proof -
  define N where "N = \<lfloor>\<bar>x\<bar> * 2 ^ 1074\<rfloor>"
  define b where "b = max 53 (bitlen N)"
  have b0: "0 \<le> b" by (simp add: b_def)
  have "bitlen N \<le> b" by (simp add: b_def)
  then have "N < 2 ^ nat b" by (simp add: bitlen_le_iff_power)
  then have "\<bar>x\<bar> * 2 ^ 1074 < of_int (2 ^ nat b)" unfolding N_def by (simp only: floor_less_iff)
  then have "\<bar>x\<bar> * 2 powi 1074 < 2 powi b" using b0 by (simp add: power_int_nonneg_exp)
  then have "\<bar>x\<bar> < 2 powi b * 2 powi (- 1074)"
    by (simp add: power_int_minus field_simps)
  also have "\<dots> = 2 powi (b - 1074)" by (simp add: power_int_add[symmetric] del: power_int_numeral_neg_numeral)
  finally show ?thesis by (simp add: quantumExponent_def N_def b_def algebra_simps)
qed

lemma quantumExponent_lower:
  "quantumExponent x = - 1074 \<or> 2 powi (quantumExponent x + 52) \<le> \<bar>x\<bar>"
proof (cases "bitlen \<lfloor>\<bar>x\<bar> * 2 ^ 1074\<rfloor> \<le> 53")
  case True
  then show ?thesis by (simp add: quantumExponent_def)
next
  case False
  define N where "N = \<lfloor>\<bar>x\<bar> * 2 ^ 1074\<rfloor>"
  define b where "b = bitlen N"
  have b: "53 < b" using False by (simp add: b_def N_def)
  have q: "quantumExponent x = b - 1127" using b by (simp add: quantumExponent_def b_def N_def)
  have "b \<le> bitlen N" by (simp add: b_def)
  then have "2 ^ (nat b - 1) \<le> N" using b by (simp add: bitlen_ge_iff_power)
  then have "of_int (2 ^ (nat b - 1)) \<le> \<bar>x\<bar> * 2 ^ 1074" unfolding N_def by (simp only: le_floor_iff)
  moreover have "nat b - 1 = nat (b - 1)" using b by simp
  ultimately have "2 powi (b - 1) \<le> \<bar>x\<bar> * 2 powi 1074" using b by (simp add: power_int_nonneg_exp)
  then have "2 powi (b - 1) * 2 powi (- 1074) \<le> \<bar>x\<bar>"
    by (simp add: power_int_minus field_simps)
  moreover have "2 powi (b - 1) * 2 powi (- 1074) = (2::rat) powi (b - 1075)"
    by (simp add: power_int_add[symmetric] del: power_int_numeral_neg_numeral)
  ultimately show ?thesis by (simp add: q algebra_simps)
qed

lemma quantumExponent_unique:
  assumes k: "- 1074 \<le> k" and up: "\<bar>x\<bar> < 2 powi (k + 53)"
    and low: "k = - 1074 \<or> 2 powi (k + 52) \<le> \<bar>x\<bar>"
  shows "quantumExponent x = k"
proof (rule antisym)
  show "quantumExponent x \<le> k"
  proof (rule ccontr)
    assume "\<not> quantumExponent x \<le> k"
    then have gt: "k < quantumExponent x" by simp
    then have "quantumExponent x \<noteq> - 1074" using k by simp
    then have "2 powi (quantumExponent x + 52) \<le> \<bar>x\<bar>" using quantumExponent_lower by blast
    then have "(2::rat) powi (quantumExponent x + 52) < 2 powi (k + 53)" using up by simp
    then have "quantumExponent x + 52 < k + 53"
      by (metis (no_types) power_int_increasing not_less one_le_numeral)
    then show False using gt by simp
  qed
  show "k \<le> quantumExponent x"
  proof (rule ccontr)
    assume "\<not> k \<le> quantumExponent x"
    then have gt: "quantumExponent x < k" by simp
    then have "k \<noteq> - 1074" using quantumExponent_ge[of x] by simp
    then have "2 powi (k + 52) \<le> \<bar>x\<bar>" using low by blast
    then have "(2::rat) powi (k + 52) < 2 powi (quantumExponent x + 53)"
      using quantumExponent_upper[of x] by simp
    then have "k + 52 < quantumExponent x + 53"
      by (metis (no_types) power_int_increasing not_less one_le_numeral)
    then show False using gt by simp
  qed
qed

lemma quantumExponent_mono: "\<bar>x\<bar> \<le> \<bar>y\<bar> \<Longrightarrow> quantumExponent x \<le> quantumExponent y"
proof -
  assume "\<bar>x\<bar> \<le> \<bar>y\<bar>"
  then have "\<lfloor>\<bar>x\<bar> * 2 ^ 1074\<rfloor> \<le> \<lfloor>\<bar>y\<bar> * 2 ^ 1074\<rfloor>" by (intro floor_mono) simp
  then have "bitlen \<lfloor>\<bar>x\<bar> * 2 ^ 1074\<rfloor> \<le> bitlen \<lfloor>\<bar>y\<bar> * 2 ^ 1074\<rfloor>"
    by (simp add: bitlen_def floorlog_mono)
  then show ?thesis by (simp add: quantumExponent_def)
qed

lemma nearest_minus: "nearest (- x) = - nearest x"
  by (simp add: nearest_def roundTiesToEven_minus)

lemma roundTiesToEven_zero [simp]: "roundTiesToEven 0 = 0"
  using roundTiesToEven_of_int[of 0] by simp

lemma nearest_zero [simp]: "nearest 0 = 0"
  by (simp add: nearest_def)

lemma nearest_nonneg: "0 \<le> x \<Longrightarrow> 0 \<le> nearest x"
proof -
  assume "0 \<le> x"
  then have "of_int 0 \<le> x / 2 powi quantumExponent x" by simp
  then have "0 \<le> roundTiesToEven (x / 2 powi quantumExponent x)" by (rule roundTiesToEven_ge)
  then show ?thesis by (simp add: nearest_def)
qed

lemma nearest_nonpos: "x \<le> 0 \<Longrightarrow> nearest x \<le> 0"
  using nearest_nonneg[of "- x"] by (simp add: nearest_minus)

text \<open>Multiples of the quantum with a significand of at most 53 bits are fixed.\<close>

lemma nearest_exact:
  assumes j: "- 1074 \<le> j" and m: "\<bar>m\<bar> \<le> 2 ^ 53"
  shows "nearest (of_int m * 2 powi j) = of_int m * 2 powi j"
proof -
  define x :: rat where "x = of_int m * 2 powi j"
  define k where "k = quantumExponent x"
  have absx: "\<bar>x\<bar> = of_int \<bar>m\<bar> * 2 powi j" by (simp add: x_def abs_mult)
  have "\<exists>n::int. x / 2 powi k = of_int n"
  proof (cases "k \<le> j")
    case True
    then have "(2::rat) powi j = 2 powi (j - k) * 2 powi k"
      by (simp add: power_int_add[symmetric])
    then have "x / 2 powi k = of_int m * 2 powi (j - k)" by (simp add: x_def)
    also have "\<dots> = of_int (m * 2 ^ nat (j - k))" using True by (simp add: power_int_nonneg_exp)
    finally show ?thesis by blast
  next
    case False
    then have kj: "j < k" by simp
    then have "k \<noteq> - 1074" using j by simp
    then have "2 powi (k + 52) \<le> \<bar>x\<bar>" using quantumExponent_lower[of x] by (simp add: k_def)
    moreover have "\<bar>x\<bar> \<le> 2 ^ 53 * 2 powi j"
      unfolding absx using m by (intro mult_right_mono) (simp_all add: of_int_le_numeral_power_cancel_iff)
    moreover have "(2::rat) ^ 53 * 2 powi j = 2 powi (j + 53)"
      by (simp add: power_int_add)
    ultimately have le: "(2::rat) powi (k + 52) \<le> 2 powi (j + 53)" by simp
    have "k + 52 \<le> j + 53"
    proof (rule ccontr)
      assume "\<not> k + 52 \<le> j + 53"
      then have "(2::rat) powi (j + 53) < 2 powi (k + 52)"
        by (intro power_int_strict_increasing) simp_all
      then show False using le by simp
    qed
    then have k: "k = j + 1" using kj by simp
    have "2 powi (j + 53) \<le> \<bar>x\<bar>" using \<open>2 powi (k + 52) \<le> \<bar>x\<bar>\<close> k by (simp add: algebra_simps)
    then have "2 ^ 53 * 2 powi j \<le> of_int \<bar>m\<bar> * (2::rat) powi j"
      unfolding absx by (simp add: power_int_add)
    then have "(2::rat) ^ 53 \<le> of_int \<bar>m\<bar>" by (simp add: mult_le_cancel_right)
    then have "2 ^ 53 \<le> \<bar>m\<bar>" by (simp add: numeral_power_le_of_int_cancel_iff)
    then have "\<bar>m\<bar> = 2 ^ 53" using m by simp
    then obtain h where h: "m = 2 * h" by (cases "0 \<le> m") (auto intro: that[of "2 ^ 52"] that[of "- (2 ^ 52)"])
    have "(2::rat) powi k = 2 * 2 powi j" using k by (simp add: power_int_add)
    then have "x / 2 powi k = of_int h" by (simp add: x_def h)
    then show ?thesis by blast
  qed
  then obtain n :: int where n: "x / 2 powi k = of_int n" by blast
  then have "x = of_int n * 2 powi k" by (simp add: field_simps)
  moreover have "nearest x = of_int n * 2 powi k"
    unfolding nearest_def k_def[symmetric] n by simp
  ultimately show ?thesis by (simp add: x_def)
qed

lemma nearest_form:
  "\<exists>n. nearest x = of_int n * 2 powi quantumExponent x \<and> \<bar>n\<bar> \<le> 2 ^ 53"
proof -
  define k where "k = quantumExponent x"
  define n where "n = roundTiesToEven (x / 2 powi k)"
  have "\<bar>x\<bar> < 2 powi (k + 53)" unfolding k_def by (rule quantumExponent_upper)
  also have "\<dots> = 2 ^ 53 * 2 powi k" by (simp add: power_int_add)
  finally have "\<bar>x\<bar> / 2 powi k < 2 ^ 53" by (simp add: field_simps)
  then have "\<bar>x / 2 powi k\<bar> < 2 ^ 53" by (simp add: abs_divide)
  then have "x / 2 powi k < 2 ^ 53" "- (2 ^ 53) < x / 2 powi k"
    unfolding abs_less_iff by linarith+
  then have b: "x / 2 powi k \<le> of_int (2 ^ 53)" "of_int (- (2 ^ 53)) \<le> x / 2 powi k"
    by simp_all
  have "n \<le> 2 ^ 53" unfolding n_def using b(1) by (rule roundTiesToEven_le)
  moreover have "- (2 ^ 53) \<le> n" unfolding n_def using b(2) by (rule roundTiesToEven_ge)
  ultimately have "\<bar>n\<bar> \<le> 2 ^ 53" by simp
  moreover have "nearest x = of_int n * 2 powi k" by (simp add: nearest_def n_def k_def)
  ultimately show ?thesis unfolding k_def by blast
qed

lemma nearest_idem [simp]: "nearest (nearest x) = nearest x"
proof -
  obtain n where "nearest x = of_int n * 2 powi quantumExponent x" "\<bar>n\<bar> \<le> 2 ^ 53"
    using nearest_form by blast
  then show ?thesis using nearest_exact[OF quantumExponent_ge, of n x] by simp
qed

text \<open>Rounding does not pass a fixed point.\<close>

lemma nearest_le_fixed:
  assumes r: "0 \<le> r" "r \<le> x" and x: "nearest x = x"
  shows "nearest r \<le> x"
proof -
  define k where "k = quantumExponent r"
  define kx where "kx = quantumExponent x"
  have kk: "k \<le> kx" unfolding k_def kx_def using r by (intro quantumExponent_mono) simp
  obtain n where n: "x = of_int n * 2 powi kx"
    using nearest_form[of x] x unfolding kx_def by auto
  have "(2::rat) powi kx = 2 powi (kx - k) * 2 powi k" by (simp add: power_int_add[symmetric])
  then have "x / 2 powi k = of_int n * 2 powi (kx - k)" by (simp add: n)
  also have "\<dots> = of_int (n * 2 ^ nat (kx - k))" using kk by (simp add: power_int_nonneg_exp)
  finally have xi: "x / 2 powi k = of_int (n * 2 ^ nat (kx - k))" .
  have "r / 2 powi k \<le> x / 2 powi k" using r by (simp add: divide_right_mono)
  then have "roundTiesToEven (r / 2 powi k) \<le> n * 2 ^ nat (kx - k)"
    unfolding xi by (rule roundTiesToEven_le)
  then have "of_int (roundTiesToEven (r / 2 powi k)) \<le> (of_int (n * 2 ^ nat (kx - k)) :: rat)"
    by (simp only: of_int_le_iff)
  then have "of_int (roundTiesToEven (r / 2 powi k)) * 2 powi k \<le> x / 2 powi k * 2 powi k"
    unfolding xi by (intro mult_right_mono) simp_all
  then show ?thesis by (simp add: nearest_def k_def)
qed

lemma nearest_abs_le_fixed:
  assumes "\<bar>r\<bar> \<le> \<bar>x\<bar>" and x: "nearest x = x"
  shows "\<bar>nearest r\<bar> \<le> \<bar>x\<bar>"
proof -
  have ax: "nearest \<bar>x\<bar> = \<bar>x\<bar>" using x nearest_minus[of x] by (simp add: abs_if)
  have "nearest \<bar>r\<bar> \<le> \<bar>x\<bar>" using assms(1) ax by (intro nearest_le_fixed) simp_all
  moreover have "\<bar>nearest r\<bar> = nearest \<bar>r\<bar>"
  proof (cases "0 \<le> r")
    case True
    then show ?thesis using nearest_nonneg[of r] by simp
  next
    case False
    then show ?thesis using nearest_nonpos[of r] nearest_minus[of r] by simp
  qed
  ultimately show ?thesis by simp
qed

text \<open>Below \<open>2^53\<close> the quantum divides \<open>1\<close>, so rounding stays between floor and ceiling.\<close>

lemma quantumExponent_small: "\<bar>x\<bar> < 2 ^ 53 \<Longrightarrow> quantumExponent x \<le> 0"
proof (rule ccontr)
  assume a: "\<bar>x\<bar> < 2 ^ 53" and "\<not> quantumExponent x \<le> 0"
  then have p: "0 < quantumExponent x" by simp
  then have "2 powi (quantumExponent x + 52) \<le> \<bar>x\<bar>" using quantumExponent_lower[of x] by auto
  moreover have "(2::rat) powi 53 \<le> 2 powi (quantumExponent x + 52)"
    using p by (intro power_int_increasing) simp_all
  ultimately show False using a by simp
qed

lemma nearest_between:
  assumes "\<bar>x\<bar> < 2 ^ 53"
  shows "of_int \<lfloor>x\<rfloor> \<le> nearest x" and "nearest x \<le> of_int \<lceil>x\<rceil>"
proof -
  define k where "k = quantumExponent x"
  have k: "k \<le> 0" unfolding k_def using assms by (rule quantumExponent_small)
  have inv: "1 / (2::rat) powi k = of_int (2 ^ nat (- k))"
    using k by (simp add: power_int_def power_inverse nat_minus_as_int field_simps)
  have scale: "of_int i / (2::rat) powi k = of_int (i * 2 ^ nat (- k))" for i :: int
    using inv by (simp add: field_simps)
  have "of_int \<lfloor>x\<rfloor> / 2 powi k \<le> x / 2 powi k" by (intro divide_right_mono) simp_all
  then have "\<lfloor>x\<rfloor> * 2 ^ nat (- k) \<le> roundTiesToEven (x / 2 powi k)"
    unfolding scale by (rule roundTiesToEven_ge)
  then have "(of_int (\<lfloor>x\<rfloor> * 2 ^ nat (- k)) :: rat) \<le> of_int (roundTiesToEven (x / 2 powi k))"
    by (simp only: of_int_le_iff)
  then have "of_int \<lfloor>x\<rfloor> / 2 powi k * 2 powi k \<le> of_int (roundTiesToEven (x / 2 powi k)) * (2::rat) powi k"
    unfolding scale by (intro mult_right_mono) simp_all
  then show "of_int \<lfloor>x\<rfloor> \<le> nearest x" by (simp add: nearest_def k_def)
  have "x / 2 powi k \<le> of_int \<lceil>x\<rceil> / 2 powi k" by (intro divide_right_mono) simp_all
  then have "roundTiesToEven (x / 2 powi k) \<le> \<lceil>x\<rceil> * 2 ^ nat (- k)"
    unfolding scale by (rule roundTiesToEven_le)
  then have "(of_int (roundTiesToEven (x / 2 powi k)) :: rat) \<le> of_int (\<lceil>x\<rceil> * 2 ^ nat (- k))"
    by (simp only: of_int_le_iff)
  then have "of_int (roundTiesToEven (x / 2 powi k)) * 2 powi k \<le> of_int \<lceil>x\<rceil> / 2 powi k * (2::rat) powi k"
    unfolding scale by (intro mult_right_mono) simp_all
  then show "nearest x \<le> of_int \<lceil>x\<rceil>" by (simp add: nearest_def k_def)
qed

text \<open>The value of \<open>nearest\<close> in a given binade.\<close>

lemma nearest_at:
  assumes "- 1074 \<le> k" "\<bar>x\<bar> < 2 powi (k + 53)" "k = - 1074 \<or> 2 powi (k + 52) \<le> \<bar>x\<bar>"
  shows "nearest x = of_int (roundTiesToEven (x / 2 powi k)) * 2 powi k"
  using quantumExponent_unique[OF assms] by (simp add: nearest_def)

subsection \<open>The doubles\<close>

lemma representable_zero [simp]: "representable 0"
  by (simp add: representable_def)

lemma representable_minus [simp]: "representable (- x) = representable x"
  by (auto simp: representable_def nearest_minus)

lemma representable_abs [simp]: "representable \<bar>x\<bar> = representable x"
  by (simp add: abs_if)

lemma representable_exact:
  "- 1074 \<le> j \<Longrightarrow> \<bar>m\<bar> \<le> 2 ^ 53 \<Longrightarrow> \<bar>of_int m * 2 powi j\<bar> < (2::rat) ^ 1024 \<Longrightarrow>
   representable (of_int m * 2 powi j)"
  by (simp add: representable_def nearest_exact)

lemma representable_int: "\<bar>n\<bar> \<le> 2 ^ 53 \<Longrightarrow> representable (of_int n)"
proof -
  assume n: "\<bar>n\<bar> \<le> 2 ^ 53"
  then have "\<bar>n\<bar> < 2 ^ 1024" by simp
  then have "\<bar>of_int n :: rat\<bar> < 2 ^ 1024"
    by (metis of_int_abs of_int_less_numeral_power_cancel_iff)
  then show ?thesis using representable_exact[of 0 n] n by simp
qed

lemma representable_nearest: "\<bar>nearest x\<bar> < 2 ^ 1024 \<Longrightarrow> representable (nearest x)"
  by (simp add: representable_def)

lemma representable_integral:
  assumes "representable x" "2 ^ 52 \<le> \<bar>x\<bar>"
  shows "\<exists>n::int. x = of_int n"
proof -
  define k where "k = quantumExponent x"
  obtain n where n: "x = of_int n * 2 powi k"
    using nearest_form[of x] assms(1) unfolding k_def representable_def by auto
  have "0 \<le> k"
  proof (rule ccontr)
    assume "\<not> 0 \<le> k"
    then have "k + 53 \<le> 52" by simp
    then have "(2::rat) powi (k + 53) \<le> 2 powi 52" by (intro power_int_increasing) simp_all
    then show False using quantumExponent_upper[of x] assms(2) unfolding k_def by simp
  qed
  then have "x = of_int (n * 2 ^ nat k)" by (simp add: n power_int_nonneg_exp)
  then show ?thesis by blast
qed

lemma floor_half [simp]: "\<lfloor>1 / 2 :: rat\<rfloor> = 0"
  by (rule floor_unique) simp_all

lemma representable_round:
  assumes "representable x"
  shows "representable (of_int \<lfloor>x + 1 / 2\<rfloor>)"
proof (cases "\<bar>x\<bar> < 2 ^ 52")
  case True
  then have b: "x + 1 / 2 \<le> of_int (2 ^ 52 + 1)" "of_int (- (2 ^ 52) - 1) \<le> x + 1 / 2"
    unfolding abs_less_iff by simp_all
  define n where "n = \<lfloor>x + 1 / 2\<rfloor>"
  have "n \<le> 2 ^ 52 + 1" unfolding n_def using floor_mono[OF b(1)] by (simp only: floor_of_int)
  moreover have "- (2 ^ 52) - 1 \<le> n" unfolding n_def using b(2) by (simp only: le_floor_iff)
  ultimately have "\<bar>n\<bar> \<le> 2 ^ 53" by simp
  then show ?thesis unfolding n_def by (rule representable_int)
next
  case False
  then obtain n :: int where "x = of_int n" using representable_integral[OF assms] by auto
  then have "of_int \<lfloor>x + 1 / 2\<rfloor> = x" by simp
  then show ?thesis using assms by simp
qed

lemma representable_valueOf [simp]: "representable (valueOf a)"
  using valueOf[of a] by simp

lemma valueOf_toDouble [simp]: "representable x \<Longrightarrow> valueOf (toDouble x) = x"
  by (simp add: toDouble.rep_eq)

lemma toDouble_valueOf [simp]: "toDouble (valueOf a) = a"
  by (simp add: valueOf_inject[symmetric])

lemma num_representable: "representable x \<Longrightarrow> num x = Fin (toDouble x)"
  by (simp add: num_def representable_def)

lemma num_valueOf [simp]: "num (valueOf a) = Fin a"
  by (simp add: num_representable)

lemma num_cases:
  "(num x = PInf \<and> 0 < x) \<or> (num x = NInf \<and> x < 0) \<or>
   (\<exists>a. num x = Fin a \<and> valueOf a = nearest x)"
proof (cases "2 ^ 1024 \<le> \<bar>nearest x\<bar>")
  case True
  then have "x \<noteq> 0" by auto
  then show ?thesis using True by (auto simp: num_def)
next
  case False
  then have "representable (nearest x)" by (simp add: representable_nearest)
  then show ?thesis using False by (auto simp: num_def)
qed

lemma num_zero_val: "num 0 = Fin (toDouble 0)"
  by (simp add: num_representable)

subsection \<open>Arithmetic\<close>

lemma Fin_eq_iff: "Fin a = Fin b \<longleftrightarrow> valueOf a = valueOf b"
  by (simp add: valueOf_inject)

lemma zero_Fin: "(0::number) = Fin (toDouble 0)"
  by (simp add: zero_number_def num_zero_val)

lemma zero_distinct [simp]:
  "(0::number) \<noteq> NaN" "NaN \<noteq> (0::number)" "(0::number) \<noteq> PInf" "PInf \<noteq> (0::number)"
  "(0::number) \<noteq> NInf" "NInf \<noteq> (0::number)"
  by (simp_all add: zero_Fin)

lemma num_zero: "num 0 = 0"
  by (simp add: zero_number_def)

lemma inf_zero [simp]:
  "\<not> PInf < (0::number)" "(0::number) < PInf" "NInf < (0::number)" "\<not> (0::number) < NInf"
  "\<not> PInf \<le> (0::number)" "(0::number) \<le> PInf" "NInf \<le> (0::number)" "\<not> (0::number) \<le> NInf"
  by (simp_all add: zero_Fin)

lemma isFinite_zero [simp]: "isFinite 0"
  by (simp add: zero_Fin)

lemma val_zero [simp]: "val 0 = 0"
  by (simp add: zero_Fin)

lemma isFinite_iff: "isFinite x \<longleftrightarrow> (\<exists>a. x = Fin a)"
  by (cases x) simp_all

lemma isFinite_val: "isFinite x \<Longrightarrow> num (val x) = x"
  by (cases x) simp_all

lemma isFinite_num: "representable x \<Longrightarrow> isFinite (num x)"
  by (simp add: num_representable)

lemma val_num: "representable x \<Longrightarrow> val (num x) = x"
  by (simp add: num_representable)

lemma representable_val [simp]: "representable (val x)"
  by (cases x) simp_all

lemma number_eqI: "isFinite x \<Longrightarrow> isFinite y \<Longrightarrow> val x = val y \<Longrightarrow> x = y"
  by (cases x; cases y) (simp_all add: valueOf_inject)

text \<open>Signs.\<close>

lemma num_nonneg: "0 \<le> x \<Longrightarrow> num x = PInf \<or> (\<exists>a. num x = Fin a \<and> 0 \<le> valueOf a)"
  using num_cases[of x] nearest_nonneg[of x] by auto

lemma num_nonpos: "x \<le> 0 \<Longrightarrow> num x = NInf \<or> (\<exists>a. num x = Fin a \<and> valueOf a \<le> 0)"
  using num_cases[of x] nearest_nonpos[of x] by auto

text \<open>A result that is no larger than an operand does not overflow.\<close>

lemma num_bounded:
  assumes "\<bar>r\<bar> \<le> \<bar>valueOf a\<bar>"
  shows "\<exists>b. num r = Fin b \<and> valueOf b = nearest r \<and> \<bar>valueOf b\<bar> \<le> \<bar>valueOf a\<bar>"
proof -
  have rep: "representable (valueOf a)" by simp
  then have fixed: "nearest (valueOf a) = valueOf a" by (simp add: representable_def)
  have le: "\<bar>nearest r\<bar> \<le> \<bar>valueOf a\<bar>" using assms fixed by (rule nearest_abs_le_fixed)
  have "\<bar>valueOf a\<bar> < 2 ^ 1024" using rep by (simp add: representable_def)
  then have "\<not> 2 ^ 1024 \<le> \<bar>nearest r\<bar>" using le by simp
  then show ?thesis using num_cases[of r] le by (auto simp: num_def)
qed

lemma Fin_minus_self [simp]: "Fin a - Fin a = 0"
  by (simp add: zero_number_def)

lemma plus_NaN [simp]: "x + NaN = NaN" "NaN + x = NaN"
  by (cases x; simp)+

lemma minus_NaN [simp]: "x - NaN = NaN" "NaN - x = NaN"
  by (cases x; simp)+

lemma less_NaN [simp]: "\<not> x < NaN" "\<not> NaN < x" "\<not> x \<le> NaN" "\<not> NaN \<le> x"
  by (cases x; simp)+

lemma zero_less_iff: "(0::number) < x \<longleftrightarrow> x = PInf \<or> (\<exists>a. x = Fin a \<and> 0 < valueOf a)"
  by (cases x) (simp_all add: zero_Fin)

lemma less_zero_iff: "x < (0::number) \<longleftrightarrow> x = NInf \<or> (\<exists>a. x = Fin a \<and> valueOf a < 0)"
  by (cases x) (simp_all add: zero_Fin)

lemma le_zero_iff: "x \<le> (0::number) \<longleftrightarrow> x = NInf \<or> (\<exists>a. x = Fin a \<and> valueOf a \<le> 0)"
  by (cases x) (simp_all add: zero_Fin)

lemma eq_zero_iff: "x = (0::number) \<longleftrightarrow> (\<exists>a. x = Fin a \<and> valueOf a = 0)"
  by (cases x) (auto simp: zero_Fin valueOf_inject[symmetric])

lemma strictEquals_zero: "strictEquals x 0 \<longleftrightarrow> x = 0"
  by (auto simp: strictEquals_def zero_Fin)

text \<open>Evaluation on representable rationals.\<close>

lemma num_plus: "representable a \<Longrightarrow> representable b \<Longrightarrow> num a + num b = num (a + b)"
  by (simp add: num_representable)

lemma num_minus: "representable a \<Longrightarrow> representable b \<Longrightarrow> num a - num b = num (a - b)"
  by (simp add: num_representable)

lemma num_times: "representable a \<Longrightarrow> representable b \<Longrightarrow> num a * num b = num (a * b)"
  by (simp add: num_representable)

lemma num_divide:
  "representable a \<Longrightarrow> representable b \<Longrightarrow> b \<noteq> 0 \<Longrightarrow> num a / num b = num (a / b)"
  by (simp add: num_representable)

lemma num_uminus: "representable a \<Longrightarrow> - num a = num (- a)"
  by (simp add: num_representable)

lemma num_abs: "representable a \<Longrightarrow> \<bar>num a\<bar> = num \<bar>a\<bar>"
  by (simp add: num_representable)

lemma num_round: "representable a \<Longrightarrow> Math_round (num a) = num (of_int \<lfloor>a + 1 / 2\<rfloor>)"
  by (simp add: num_representable)

lemma num_less: "representable a \<Longrightarrow> representable b \<Longrightarrow> (num a < num b) = (a < b)"
  by (simp add: num_representable)

lemma num_le: "representable a \<Longrightarrow> representable b \<Longrightarrow> (num a \<le> num b) = (a \<le> b)"
  by (simp add: num_representable)

lemma num_eq: "representable a \<Longrightarrow> representable b \<Longrightarrow> (num a = num b) = (a = b)"
  by (auto simp: num_representable valueOf_inject[symmetric])

lemma num_distinct:
  "representable a \<Longrightarrow> num a \<noteq> NaN" "representable a \<Longrightarrow> num a \<noteq> PInf"
  "representable a \<Longrightarrow> num a \<noteq> NInf" "representable a \<Longrightarrow> NaN \<noteq> num a"
  "representable a \<Longrightarrow> PInf \<noteq> num a" "representable a \<Longrightarrow> NInf \<noteq> num a"
  by (simp_all add: num_representable)

lemma num_inf:
  "representable a \<Longrightarrow> num a < PInf" "representable a \<Longrightarrow> NInf < num a"
  "representable a \<Longrightarrow> \<not> PInf < num a" "representable a \<Longrightarrow> \<not> num a < NInf"
  "representable a \<Longrightarrow> num a + PInf = PInf" "representable a \<Longrightarrow> PInf + num a = PInf"
  "representable a \<Longrightarrow> num a - PInf = NInf" "representable a \<Longrightarrow> PInf - num a = PInf"
  by (simp_all add: num_representable)

lemma representable_numeral: "numeral w \<le> (2::int) ^ 53 \<Longrightarrow> representable (numeral w)"
  using representable_int[of "numeral w"] by simp

lemma representable_one [simp]: "representable 1"
  using representable_int[of 1] by simp

lemma representable_half: "\<bar>m\<bar> \<le> 2 ^ 53 \<Longrightarrow> representable (of_int m / 2)"
proof -
  assume m: "\<bar>m\<bar> \<le> 2 ^ 53"
  then have "\<bar>of_int m :: rat\<bar> \<le> 2 ^ 53"
    by (metis of_int_abs of_int_le_numeral_power_cancel_iff)
  then have "\<bar>of_int m * 2 powi (- 1)\<bar> < (2::rat) ^ 1024" by (simp add: abs_mult)
  from representable_exact[OF _ m this] show ?thesis by simp
qed

lemma representable_numeral_half: "numeral w \<le> (2::int) ^ 53 \<Longrightarrow> representable (numeral w / 2)"
  using representable_half[of "numeral w"] by simp

lemma floor_rat_quotient: "\<lfloor>numeral a / numeral b :: rat\<rfloor> = numeral a div numeral b"
  using floor_divide_of_int_eq[of "numeral a" "numeral b", where ?'a = rat] by simp

lemma floor_rat_neg_quotient:
  "\<lfloor>- (numeral a / numeral b) :: rat\<rfloor> = - numeral a div numeral b"
  using floor_divide_of_int_eq[of "- numeral a" "numeral b", where ?'a = rat] by simp

lemma nearest_above_2_53: "nearest (2 ^ 53 + 1) = 2 ^ 53"
proof -
  have "nearest (2 ^ 53 + 1) = of_int (roundTiesToEven ((2 ^ 53 + 1) / 2 powi 1)) * 2 powi 1"
    by (rule nearest_at) simp_all
  also have "\<dots> = 2 ^ 53"
    by (simp add: roundTiesToEven_def Let_def floor_rat_quotient)
  finally show ?thesis .
qed

lemma num_nearest: "representable (nearest x) \<Longrightarrow> num x = num (nearest x)"
  by (simp add: num_def representable_def)

lemma num_above_2_53: "num (2 ^ 53 + 1) = num (2 ^ 53)"
proof -
  have "representable (2 ^ 53)" using representable_int[of "2 ^ 53"] by simp
  then show ?thesis using num_nearest[of "2 ^ 53 + 1"] by (simp only: nearest_above_2_53)
qed

lemma num_2_53_plus_1: "num 9007199254740993 = num 9007199254740992"
  using num_above_2_53 by simp

lemma representable_above_2_53:
  "representable 9007199254740994" "representable 9007199254740996"
proof -
  have "representable (of_int 4503599627370497 * 2 powi 1)"
    by (rule representable_exact) simp_all
  then show "representable 9007199254740994" by simp
  have "representable (of_int 4503599627370498 * 2 powi 1)"
    by (rule representable_exact) simp_all
  then show "representable 9007199254740996" by simp
qed

text \<open>Doubles between \<open>0\<close> and \<open>4\<close> that are not whole, and a tie just above \<open>2\<close>.\<close>

lemma representable_fractions:
  "representable (1 / 4503599627370496)"
  "representable (1 / 2251799813685248)"
  "representable (3 / 4503599627370496)"
  "representable (4503599627370497 / 2251799813685248)"
  "representable (9007199254740991 / 4503599627370496)"
  "representable (2251799813685249 / 1125899906842624)"
proof -
  have "representable (of_int 1 * 2 powi (- 52))" by (rule representable_exact) simp_all
  then show "representable (1 / 4503599627370496)" by (simp add: power_int_minus)
  have "representable (of_int 1 * 2 powi (- 51))" by (rule representable_exact) simp_all
  then show "representable (1 / 2251799813685248)" by (simp add: power_int_minus)
  have "representable (of_int 3 * 2 powi (- 52))"
    by (rule representable_exact) (simp_all add: power_int_minus)
  then show "representable (3 / 4503599627370496)" by (simp add: power_int_minus)
  have "representable (of_int 4503599627370497 * 2 powi (- 51))"
    by (rule representable_exact) (simp_all add: power_int_minus)
  then show "representable (4503599627370497 / 2251799813685248)" by (simp add: power_int_minus)
  have "representable (of_int 9007199254740991 * 2 powi (- 52))"
    by (rule representable_exact) (simp_all add: power_int_minus)
  then show "representable (9007199254740991 / 4503599627370496)" by (simp add: power_int_minus)
  have "representable (of_int 4503599627370498 * 2 powi (- 51))"
    by (rule representable_exact) (simp_all add: power_int_minus)
  then show "representable (2251799813685249 / 1125899906842624)" by (simp add: power_int_minus)
qed

lemma nearest_above_2: "nearest (9007199254740993 / 4503599627370496) = 2"
proof -
  have "nearest (9007199254740993 / 4503599627370496)
      = of_int (roundTiesToEven (9007199254740993 / 4503599627370496 / 2 powi (- 51))) * 2 powi (- 51)"
    by (rule nearest_at) (simp_all add: power_int_minus)
  also have "\<dots> = 2"
    by (simp add: roundTiesToEven_def Let_def floor_rat_quotient power_int_minus)
  finally show ?thesis .
qed

lemma num_above_2: "num (9007199254740993 / 4503599627370496) = num 2"
proof -
  have "representable 2" by (simp add: representable_numeral)
  then show ?thesis
    using num_nearest[of "9007199254740993 / 4503599627370496"] by (simp only: nearest_above_2)
qed

lemma floor_rat_unit_fraction: "\<lfloor>1 / numeral b :: rat\<rfloor> = 1 div numeral b"
  using floor_divide_of_int_eq[of 1 "numeral b", where ?'a = rat] by simp

lemma floor_rat_neg_unit_fraction: "\<lfloor>- (1 / numeral b) :: rat\<rfloor> = - 1 div numeral b"
  using floor_divide_of_int_eq[of "- 1" "numeral b", where ?'a = rat] by simp

lemmas number_eval = zero_number_def strictEquals_def Math_min_def Math_abs_def
  num_plus num_minus num_times num_divide num_uminus num_abs num_round num_less num_le num_eq
  num_distinct num_inf isFinite_num val_num representable_numeral representable_numeral_half
  floor_rat_quotient floor_rat_neg_quotient floor_rat_unit_fraction floor_rat_neg_unit_fraction

section \<open>The rounding normalizer: proofs\<close>

subsection \<open>The rounded list and the object picked by \<open>reduce\<close>\<close>

lemma length_roundEach [simp]: "length (roundEach balances unit) = length balances"
  by (simp add: roundEach_def)

lemma nth_roundEach:
  "j < length balances \<Longrightarrow>
   roundEach balances unit ! j =
     CalculatedBalance.extend (balances ! j) (RoundedBalance.fields (roundToUnit (diff (balances ! j)) unit))"
  by (simp add: roundEach_def)

lemma roundedDiff_extend [simp]:
  "roundedDiff (CalculatedBalance.extend b (RoundedBalance.fields r)) = r"
  by (simp add: CalculatedBalance.extend_def RoundedBalance.fields_def)

lemma truncate_extend [simp]:
  "CalculatedBalance.truncate (CalculatedBalance.extend b (RoundedBalance.fields r)) = b"
  by (simp add: CalculatedBalance.extend_def RoundedBalance.fields_def CalculatedBalance.truncate_def)

lemma truncate_roundedDiff_update [simp]:
  "CalculatedBalance.truncate (b\<lparr>roundedDiff := r\<rparr>) = CalculatedBalance.truncate b"
  by (simp add: CalculatedBalance.truncate_def)

lemma length_subtractAt [simp]: "length (subtractAt i t rounded) = length rounded"
  by (simp add: subtractAt_def)

lemma map_truncate_roundEach [simp]:
  "map CalculatedBalance.truncate (roundEach balances unit) = balances"
  by (simp add: roundEach_def comp_def)

lemma map_truncate_subtractAt [simp]:
  "map CalculatedBalance.truncate (subtractAt i t rounded) = map CalculatedBalance.truncate rounded"
proof (rule nth_equalityI)
  show "length (map CalculatedBalance.truncate (subtractAt i t rounded)) =
        length (map CalculatedBalance.truncate rounded)" by simp
next
  fix j assume "j < length (map CalculatedBalance.truncate (subtractAt i t rounded))"
  then have "j < length rounded" by simp
  then show "map CalculatedBalance.truncate (subtractAt i t rounded) ! j =
             map CalculatedBalance.truncate rounded ! j"
    by (cases "j = i") (simp_all add: subtractAt_def)
qed

lemma reduceIndex_aux:
  "m < Suc k \<Longrightarrow> foldl (\<lambda>acc i. if better (xs ! i) (xs ! acc) then i else acc) m [Suc k..<n] < max (Suc k) n"
proof (induction "n - Suc k" arbitrary: m k)
  case 0
  then show ?case by simp
next
  case (Suc d)
  then have lt: "Suc k < n" by simp
  then have upt: "[Suc k..<n] = Suc k # [Suc (Suc k)..<n]" by (simp add: upt_conv_Cons)
  have "d = n - Suc (Suc k)" using Suc.hyps by simp
  from Suc.hyps(1)[OF this, of "if better (xs ! Suc k) (xs ! m) then Suc k else m"] Suc.prems lt
  show ?case by (simp add: upt max_def split: if_splits)
qed

lemma reduceIndex_less: "xs \<noteq> [] \<Longrightarrow> reduceIndex better xs < length xs"
  using reduceIndex_aux[of 0 0 better xs "length xs"]
  by (cases xs) (auto simp: reduceIndex_def max_def split: if_splits)

lemma reduce_scan:
  fixes key :: "'a \<Rightarrow> 'b::linorder"
  assumes better: "\<And>i j. i < length xs \<Longrightarrow> j < length xs \<Longrightarrow>
             better (xs ! i) (xs ! j) = (key (xs ! j) < key (xs ! i))"
  shows "m < k \<Longrightarrow> k \<le> n \<Longrightarrow> n \<le> length xs \<Longrightarrow>
     r = foldl (\<lambda>acc i. if better (xs ! i) (xs ! acc) then i else acc) m [k..<n] \<Longrightarrow>
       (r = m \<or> (k \<le> r \<and> r < n)) \<and> key (xs ! m) \<le> key (xs ! r) \<and>
       (r \<noteq> m \<longrightarrow> key (xs ! m) < key (xs ! r)) \<and>
       (\<forall>j. k \<le> j \<and> j < n \<longrightarrow> key (xs ! j) \<le> key (xs ! r)) \<and>
       (\<forall>j. k \<le> j \<and> j < r \<longrightarrow> key (xs ! j) < key (xs ! r))"
proof (induction "n - k" arbitrary: m k r)
  case 0
  then show ?case by auto
next
  case (Suc d)
  let ?step = "\<lambda>acc i. if better (xs ! i) (xs ! acc) then i else acc"
  define m' where "m' = ?step m k"
  from Suc.hyps(2) Suc.prems have kn: "k < n" by simp
  then have upt: "[k..<n] = k # [Suc k..<n]" by (simp add: upt_conv_Cons)
  have r: "r = foldl ?step m' [Suc k..<n]" using Suc.prems(4) by (simp add: upt m'_def)
  have d: "d = n - Suc k" using Suc.hyps(2) by simp
  have mlen: "m < length xs" "k < length xs" using Suc.prems kn by simp_all
  have m'cases: "(m' = k \<and> key (xs ! m) < key (xs ! k)) \<or> (m' = m \<and> key (xs ! k) \<le> key (xs ! m))"
    using better[OF mlen(2) mlen(1)] by (auto simp: m'_def)
  then have m'lt: "m' < Suc k" using Suc.prems(1) by auto
  have kn': "Suc k \<le> n" using kn by simp
  note IH = Suc.hyps(1)[OF d m'lt kn' Suc.prems(3) r]
  from IH have a: "r = m' \<or> (Suc k \<le> r \<and> r < n)" by blast
  from IH have b: "key (xs ! m') \<le> key (xs ! r)" by blast
  from IH have c: "r \<noteq> m' \<longrightarrow> key (xs ! m') < key (xs ! r)" by blast
  from IH have e: "\<forall>j. Suc k \<le> j \<and> j < n \<longrightarrow> key (xs ! j) \<le> key (xs ! r)" by blast
  from IH have f: "\<forall>j. Suc k \<le> j \<and> j < r \<longrightarrow> key (xs ! j) < key (xs ! r)" by blast
  have 1: "r = m \<or> (k \<le> r \<and> r < n)" using a m'cases kn by auto
  have 2: "key (xs ! m) \<le> key (xs ! r)" using b m'cases by auto
  have 3: "r \<noteq> m \<longrightarrow> key (xs ! m) < key (xs ! r)" using b c m'cases by auto
  have 4: "\<forall>j. k \<le> j \<and> j < n \<longrightarrow> key (xs ! j) \<le> key (xs ! r)"
  proof (intro allI impI)
    fix j assume j: "k \<le> j \<and> j < n"
    show "key (xs ! j) \<le> key (xs ! r)"
    proof (cases "j = k")
      case True
      then show ?thesis using b m'cases by auto
    next
      case False
      then show ?thesis using e j by simp
    qed
  qed
  have 5: "\<forall>j. k \<le> j \<and> j < r \<longrightarrow> key (xs ! j) < key (xs ! r)"
  proof (intro allI impI)
    fix j assume j: "k \<le> j \<and> j < r"
    show "key (xs ! j) < key (xs ! r)"
    proof (cases "j = k")
      case True
      then show ?thesis using b c m'cases j Suc.prems(1) by auto
    next
      case False
      then show ?thesis using f j by simp
    qed
  qed
  show ?case using 1 2 3 4 5 by blast
qed

lemma reduceIndex_first:
  fixes key :: "'a \<Rightarrow> 'b::linorder"
  assumes better: "\<And>i j. i < length xs \<Longrightarrow> j < length xs \<Longrightarrow>
             better (xs ! i) (xs ! j) = (key (xs ! j) < key (xs ! i))"
    and ne: "xs \<noteq> []"
  shows "reduceIndex better xs < length xs \<and>
         (\<forall>j<length xs. key (xs ! j) \<le> key (xs ! reduceIndex better xs)) \<and>
         (\<forall>j<reduceIndex better xs. key (xs ! j) < key (xs ! reduceIndex better xs))"
proof -
  have len: "Suc 0 \<le> length xs" using ne by (cases xs) simp_all
  have r: "reduceIndex better xs =
      foldl (\<lambda>acc i. if better (xs ! i) (xs ! acc) then i else acc) 0 [Suc 0..<length xs]"
    by (simp add: reduceIndex_def)
  note S = reduce_scan[of xs better key 0 "Suc 0" "length xs" "reduceIndex better xs",
      OF better _ len le_refl r]
  have zero: "(0::nat) < Suc 0" by simp
  from S[OF _ _ zero] have a: "reduceIndex better xs = 0 \<or> (Suc 0 \<le> reduceIndex better xs \<and> reduceIndex better xs < length xs)"
    and b: "key (xs ! 0) \<le> key (xs ! reduceIndex better xs)"
    and c: "reduceIndex better xs \<noteq> 0 \<longrightarrow> key (xs ! 0) < key (xs ! reduceIndex better xs)"
    and e: "\<forall>j. Suc 0 \<le> j \<and> j < length xs \<longrightarrow> key (xs ! j) \<le> key (xs ! reduceIndex better xs)"
    and f: "\<forall>j. Suc 0 \<le> j \<and> j < reduceIndex better xs \<longrightarrow> key (xs ! j) < key (xs ! reduceIndex better xs)"
    by blast+
  have 1: "reduceIndex better xs < length xs" using a len by auto
  have 2: "\<forall>j<length xs. key (xs ! j) \<le> key (xs ! reduceIndex better xs)"
  proof (intro allI impI)
    fix j assume "j < length xs"
    then show "key (xs ! j) \<le> key (xs ! reduceIndex better xs)"
      using b e by (cases j) auto
  qed
  have 3: "\<forall>j<reduceIndex better xs. key (xs ! j) < key (xs ! reduceIndex better xs)"
  proof (intro allI impI)
    fix j assume "j < reduceIndex better xs"
    then show "key (xs ! j) < key (xs ! reduceIndex better xs)"
      using c f by (cases j) auto
  qed
  show ?thesis using 1 2 3 by blast
qed

subsection \<open>Order and sums without \<open>NaN\<close>\<close>

lemma rank_less: "x \<noteq> NaN \<Longrightarrow> y \<noteq> NaN \<Longrightarrow> (x < y) = (rank x < rank y)"
  by (cases x; cases y) simp_all

lemma rank_le: "x \<noteq> NaN \<Longrightarrow> y \<noteq> NaN \<Longrightarrow> (x \<le> y) = (rank x \<le> rank y)"
  by (cases x; cases y) (auto simp: valueOf_inject)

lemma foldl_plus_NaN [simp]: "foldl (+) NaN xs = NaN"
  by (induction xs) simp_all

lemma foldl_plus_not_NaN: "foldl (+) a xs \<noteq> NaN \<Longrightarrow> a \<noteq> NaN \<and> NaN \<notin> set xs"
proof (induction xs arbitrary: a)
  case Nil
  then show ?case by simp
next
  case (Cons x xs)
  then have "a + x \<noteq> NaN" "NaN \<notin> set xs" by auto
  then show ?case by (cases a; cases x) auto
qed

lemma sumNumbers_not_NaN: "sumNumbers xs \<noteq> NaN \<Longrightarrow> NaN \<notin> set xs"
  using foldl_plus_not_NaN[of 0 xs] by (simp add: sumNumbers_def)

lemma totalRoundedOf_sum: "totalRoundedOf rounded = sumNumbers (map roundedDiff rounded)"
  by (simp add: totalRoundedOf_def sumNumbers_def foldl_map)

lemma number_sign_exclusive: "(0::number) < x \<Longrightarrow> \<not> x < 0"
  by (cases x) (simp_all add: zero_Fin)

lemma zero_not_less_zero [simp]: "\<not> (0::number) < 0"
  by (simp add: zero_Fin)

lemma nonpos_plus:
  fixes a x :: number
  shows "a \<le> 0 \<Longrightarrow> x \<le> 0 \<Longrightarrow> a + x \<le> 0"
proof -
  assume a: "a \<le> 0" and x: "x \<le> 0"
  show ?thesis
  proof (cases a)
    case (Fin p)
    show ?thesis
    proof (cases x)
      case (Fin q)
      have "valueOf p + valueOf q \<le> 0" using a x \<open>a = Fin p\<close> Fin by (simp add: le_zero_iff)
      from num_nonpos[OF this] show ?thesis using \<open>a = Fin p\<close> Fin by (auto simp: le_zero_iff)
    qed (use x \<open>a = Fin p\<close> in \<open>simp_all add: le_zero_iff\<close>)
  qed (use a x in \<open>cases x; simp_all add: le_zero_iff\<close>)+
qed

lemma nonneg_plus:
  fixes a x :: number
  shows "0 \<le> a \<Longrightarrow> 0 \<le> x \<Longrightarrow> 0 \<le> a + x"
proof -
  assume a: "0 \<le> a" and x: "0 \<le> x"
  show ?thesis
  proof (cases a)
    case (Fin p)
    show ?thesis
    proof (cases x)
      case (Fin q)
      have "0 \<le> valueOf p + valueOf q" using a x \<open>a = Fin p\<close> Fin by (simp add: zero_Fin)
      from num_nonneg[OF this] show ?thesis using \<open>a = Fin p\<close> Fin by (auto simp: zero_Fin)
    qed (use x \<open>a = Fin p\<close> in \<open>simp_all add: zero_Fin\<close>)
  qed (use a x in \<open>cases x; simp_all add: zero_Fin\<close>)+
qed

lemma foldl_nonpos:
  fixes a :: number
  shows "a \<le> 0 \<Longrightarrow> \<forall>x\<in>set xs. x \<le> 0 \<Longrightarrow> foldl (+) a xs \<le> 0"
  by (induction xs arbitrary: a) (simp_all add: nonpos_plus)

lemma foldl_nonneg:
  fixes a :: number
  shows "0 \<le> a \<Longrightarrow> \<forall>x\<in>set xs. 0 \<le> x \<Longrightarrow> 0 \<le> foldl (+) a xs"
  by (induction xs arbitrary: a) (simp_all add: nonneg_plus)

lemma number_trichotomy: "x \<noteq> NaN \<Longrightarrow> x < 0 \<or> x = 0 \<or> (0::number) < x"
  by (cases x) (auto simp: zero_Fin valueOf_inject[symmetric])

lemma number_le_less: "(x::number) \<le> 0 \<longleftrightarrow> x < 0 \<or> x = 0"
  by (cases x) (auto simp: zero_Fin valueOf_inject[symmetric])

lemma number_ge_less: "(0::number) \<le> x \<longleftrightarrow> 0 < x \<or> x = 0"
  by (cases x) (auto simp: zero_Fin valueOf_inject[symmetric])

lemma sum_positive_has_positive:
  assumes "0 < sumNumbers xs"
  shows "\<exists>x\<in>set xs. 0 < x"
proof (rule ccontr)
  assume none: "\<not> (\<exists>x\<in>set xs. 0 < x)"
  have "sumNumbers xs \<noteq> NaN" using assms by auto
  then have "NaN \<notin> set xs" by (rule sumNumbers_not_NaN)
  then have "\<forall>x\<in>set xs. x \<le> 0"
    using none number_trichotomy by (metis number_le_less)
  then have "sumNumbers xs \<le> 0"
    unfolding sumNumbers_def by (intro foldl_nonpos) (simp_all add: number_le_less)
  then show False using assms number_sign_exclusive by (auto simp: number_le_less)
qed

lemma sum_not_positive_has_negative:
  assumes "\<not> 0 < sumNumbers xs" "sumNumbers xs \<noteq> 0" "NaN \<notin> set xs"
  shows "\<exists>x\<in>set xs. x < 0"
proof (rule ccontr)
  assume none: "\<not> (\<exists>x\<in>set xs. x < 0)"
  then have "\<forall>x\<in>set xs. 0 \<le> x"
    using assms(3) number_trichotomy by (metis number_ge_less)
  then have "0 \<le> sumNumbers xs"
    unfolding sumNumbers_def by (intro foldl_nonneg) (simp_all add: number_ge_less)
  then show False using assms by (auto simp: number_ge_less)
qed

subsection \<open>The entry that absorbs the drift\<close>

lemma roundBalancesToUnit_unfold:
  "roundBalancesToUnit balances unit =
     (if \<not> strictEquals (totalRoundedOf (roundEach balances unit)) 0 \<and> balances \<noteq> [] then
        (if totalRoundedOf (roundEach balances unit) > 0 then
           subtractAt
             (reduceIndex (\<lambda>balance max. roundedDiff balance > roundedDiff max)
                (roundEach balances unit))
             (totalRoundedOf (roundEach balances unit)) (roundEach balances unit)
         else
           subtractAt
             (reduceIndex (\<lambda>balance min. roundedDiff balance < roundedDiff min)
                (roundEach balances unit))
             (totalRoundedOf (roundEach balances unit)) (roundEach balances unit))
      else roundEach balances unit)"
  unfolding roundBalancesToUnit_def Let_def
  by (simp only: length_roundEach length_greater_0_conv)

lemma totalRoundedOf_Nil [simp]: "totalRoundedOf [] = 0"
  by (simp add: totalRoundedOf_def)

lemma total_nonzero_nonempty:
  "totalRoundedOf (roundEach balances unit) \<noteq> 0 \<Longrightarrow> balances \<noteq> []"
  by (auto simp: roundEach_def)

lemma first_max_target:
  assumes nan: "\<forall>b\<in>set rounded. roundedDiff b \<noteq> NaN" and ne: "rounded \<noteq> []"
  defines "i \<equiv> reduceIndex (\<lambda>balance max. roundedDiff balance > roundedDiff max) rounded"
  shows "i < length rounded \<and>
         (\<forall>j<length rounded. roundedDiff (rounded ! j) \<le> roundedDiff (rounded ! i)) \<and>
         (\<forall>j<i. roundedDiff (rounded ! j) < roundedDiff (rounded ! i))"
proof -
  have n: "\<And>j. j < length rounded \<Longrightarrow> roundedDiff (rounded ! j) \<noteq> NaN" using nan by simp
  have better: "\<And>i j. i < length rounded \<Longrightarrow> j < length rounded \<Longrightarrow>
      (roundedDiff (rounded ! i) > roundedDiff (rounded ! j)) =
      (rank (roundedDiff (rounded ! j)) < rank (roundedDiff (rounded ! i)))"
    using n by (simp add: rank_less)
  note F = reduceIndex_first[of rounded "\<lambda>balance max. roundedDiff balance > roundedDiff max"
      "\<lambda>b. rank (roundedDiff b)", OF better ne, folded i_def]
  from F have 1: "i < length rounded" by blast
  have 2: "\<forall>j<length rounded. roundedDiff (rounded ! j) \<le> roundedDiff (rounded ! i)"
    using F n 1 by (simp add: rank_le)
  have 3: "\<forall>j<i. roundedDiff (rounded ! j) < roundedDiff (rounded ! i)"
    using F n 1 by (simp add: rank_less)
  show ?thesis using 1 2 3 by blast
qed

lemma first_min_target:
  assumes nan: "\<forall>b\<in>set rounded. roundedDiff b \<noteq> NaN" and ne: "rounded \<noteq> []"
  defines "i \<equiv> reduceIndex (\<lambda>balance min. roundedDiff balance < roundedDiff min) rounded"
  shows "i < length rounded \<and>
         (\<forall>j<length rounded. roundedDiff (rounded ! i) \<le> roundedDiff (rounded ! j)) \<and>
         (\<forall>j<i. roundedDiff (rounded ! i) < roundedDiff (rounded ! j))"
proof -
  have n: "\<And>j. j < length rounded \<Longrightarrow> roundedDiff (rounded ! j) \<noteq> NaN" using nan by simp
  let ?key = "\<lambda>b. (2 - fst (rank (roundedDiff b)), - snd (rank (roundedDiff b)))"
  have flip: "(rank x < rank y) = ((2 - fst (rank y), - snd (rank y)) < (2 - fst (rank x), - snd (rank x)))"
    if "x \<noteq> NaN" "y \<noteq> NaN" for x y
    using that by (cases x; cases y) simp_all
  have flip_le: "(rank x \<le> rank y) = ((2 - fst (rank y), - snd (rank y)) \<le> (2 - fst (rank x), - snd (rank x)))"
    if "x \<noteq> NaN" "y \<noteq> NaN" for x y
    using that by (cases x; cases y) simp_all
  have better: "(roundedDiff (rounded ! i) < roundedDiff (rounded ! j))
                  = (?key (rounded ! j) < ?key (rounded ! i))"
    if "i < length rounded" "j < length rounded" for i j
    by (rule trans[OF rank_less[OF n[OF that(1)] n[OF that(2)]] flip[OF n[OF that(1)] n[OF that(2)]]])
  note F = reduceIndex_first[of rounded "\<lambda>balance min. roundedDiff balance < roundedDiff min"
      ?key, OF better ne, folded i_def]
  from F have 1: "i < length rounded" by blast
  have 2: "\<forall>j<length rounded. roundedDiff (rounded ! i) \<le> roundedDiff (rounded ! j)"
  proof (intro allI impI)
    fix j assume j: "j < length rounded"
    then have "?key (rounded ! j) \<le> ?key (rounded ! i)" using F by blast
    then show "roundedDiff (rounded ! i) \<le> roundedDiff (rounded ! j)"
      using trans[OF rank_le[OF n[OF 1] n[OF j]] flip_le[OF n[OF 1] n[OF j]]] by blast
  qed
  have 3: "\<forall>j<i. roundedDiff (rounded ! i) < roundedDiff (rounded ! j)"
  proof (intro allI impI)
    fix j assume j: "j < i"
    then have jl: "j < length rounded" using 1 by simp
    have "?key (rounded ! j) < ?key (rounded ! i)" using F j by blast
    then show "roundedDiff (rounded ! i) < roundedDiff (rounded ! j)"
      using trans[OF rank_less[OF n[OF 1] n[OF jl]] flip[OF n[OF 1] n[OF jl]]] by blast
  qed
  show ?thesis using 1 2 3 by blast
qed

lemma drift_sign_no_NaN:
  assumes "0 < totalRoundedOf rounded \<or> totalRoundedOf rounded < 0"
  shows "\<forall>b\<in>set rounded. roundedDiff b \<noteq> NaN"
proof -
  have "sumNumbers (map roundedDiff rounded) \<noteq> NaN"
    using assms by (auto simp: totalRoundedOf_sum)
  then have "NaN \<notin> set (map roundedDiff rounded)" by (rule sumNumbers_not_NaN)
  then show ?thesis by force
qed

lemmas example_defs = alice_def bob_def carol_def dave_def balanceOf_def surplusBalances_def
  deficitBalances_def

lemmas rounding_eval = roundBalancesToUnit_def roundEach_def roundToUnit_def totalRoundedOf_def
  subtractAt_def reduceIndex_def CalculatedBalance.extend_def RoundedBalance.fields_def Let_def

lemma surplus_rounded:
  "map roundedDiff (roundEach surplusBalances (num 100)) = [num 200, num 200, num (- 100)]"
  by (simp add: example_defs number_eval rounding_eval)

lemma surplus_result:
  "map roundedDiff (roundBalancesToUnit surplusBalances (num 100)) =
     [num (- 100), num 200, num (- 100)]"
  by (simp add: example_defs number_eval rounding_eval upt_conv_Cons)

lemma deficit_rounded:
  "map roundedDiff (roundEach deficitBalances (num 100)) = [num (- 100), num (- 100), num 100]"
  by (simp add: example_defs number_eval rounding_eval)

lemma deficit_result:
  "map roundedDiff (roundBalancesToUnit deficitBalances (num 100)) =
     [num 0, num (- 100), num 100]"
  by (simp add: example_defs number_eval rounding_eval upt_conv_Cons)

subsection \<open>C7: which entry absorbs the drift\<close>

text \<open>
  C7. In \<open>roundBalancesToUnit\<close>, when the sum of the rounded diffs (the drift) is
  positive, the drift is subtracted from the entry with the largest \<open>roundedDiff\<close>, the
  first such entry in list order; when the drift is negative, it is subtracted from the
  entry with the smallest \<open>roundedDiff\<close>, again the first such entry. The result is the
  rounded list with that one entry replaced: no other entry is adjusted.
\<close>

theorem roundBalancesToUnit_target:
  assumes "rounded = roundEach balances unit" and "drift = totalRoundedOf rounded"
  shows "(0 < drift \<longrightarrow>
           (\<exists>i<length rounded.
              (\<forall>j<length rounded. roundedDiff (rounded ! j) \<le> roundedDiff (rounded ! i)) \<and>
              (\<forall>j<i. roundedDiff (rounded ! j) < roundedDiff (rounded ! i)) \<and>
              roundBalancesToUnit balances unit =
                rounded[i := (rounded ! i)\<lparr>roundedDiff := roundedDiff (rounded ! i) - drift\<rparr>])) \<and>
         (drift < 0 \<longrightarrow>
           (\<exists>i<length rounded.
              (\<forall>j<length rounded. roundedDiff (rounded ! i) \<le> roundedDiff (rounded ! j)) \<and>
              (\<forall>j<i. roundedDiff (rounded ! i) < roundedDiff (rounded ! j)) \<and>
              roundBalancesToUnit balances unit =
                rounded[i := (rounded ! i)\<lparr>roundedDiff := roundedDiff (rounded ! i) - drift\<rparr>]))"
proof (intro conjI impI)
  assume pos: "0 < drift"
  then have pos': "0 < totalRoundedOf (roundEach balances unit)" using assms by simp
  have ne: "balances \<noteq> []" using pos' by (auto simp: roundEach_def)
  have nz: "\<not> strictEquals (totalRoundedOf (roundEach balances unit)) 0"
    using pos' by (auto simp: strictEquals_def)
  have nan: "\<forall>b\<in>set rounded. roundedDiff b \<noteq> NaN"
    using pos' assms(1) drift_sign_no_NaN by blast
  have ne': "rounded \<noteq> []" using ne assms(1) by (simp add: roundEach_def)
  have res: "roundBalancesToUnit balances unit =
      subtractAt (reduceIndex (\<lambda>balance max. roundedDiff balance > roundedDiff max) rounded) drift rounded"
    using pos' nz ne assms by (simp add: roundBalancesToUnit_unfold)
  show "\<exists>i<length rounded.
              (\<forall>j<length rounded. roundedDiff (rounded ! j) \<le> roundedDiff (rounded ! i)) \<and>
              (\<forall>j<i. roundedDiff (rounded ! j) < roundedDiff (rounded ! i)) \<and>
              roundBalancesToUnit balances unit =
                rounded[i := (rounded ! i)\<lparr>roundedDiff := roundedDiff (rounded ! i) - drift\<rparr>]"
    using first_max_target[OF nan ne'] res
    by (intro exI[of _ "reduceIndex (\<lambda>balance max. roundedDiff balance > roundedDiff max) rounded"])
       (simp add: subtractAt_def)
next
  assume neg: "drift < 0"
  then have neg': "totalRoundedOf (roundEach balances unit) < 0" using assms by simp
  have ne: "balances \<noteq> []" using neg' by (auto simp: roundEach_def)
  have nz: "\<not> strictEquals (totalRoundedOf (roundEach balances unit)) 0"
    using neg' by (auto simp: strictEquals_def)
  have npos: "\<not> 0 < totalRoundedOf (roundEach balances unit)"
    using neg' number_sign_exclusive by blast
  have nan: "\<forall>b\<in>set rounded. roundedDiff b \<noteq> NaN"
    using neg' assms(1) drift_sign_no_NaN by blast
  have ne': "rounded \<noteq> []" using ne assms(1) by (simp add: roundEach_def)
  have res: "roundBalancesToUnit balances unit =
      subtractAt (reduceIndex (\<lambda>balance min. roundedDiff balance < roundedDiff min) rounded) drift rounded"
    using neg' npos nz ne assms by (simp add: roundBalancesToUnit_unfold)
  show "\<exists>i<length rounded.
              (\<forall>j<length rounded. roundedDiff (rounded ! i) \<le> roundedDiff (rounded ! j)) \<and>
              (\<forall>j<i. roundedDiff (rounded ! i) < roundedDiff (rounded ! j)) \<and>
              roundBalancesToUnit balances unit =
                rounded[i := (rounded ! i)\<lparr>roundedDiff := roundedDiff (rounded ! i) - drift\<rparr>]"
    using first_min_target[OF nan ne'] res
    by (intro exI[of _ "reduceIndex (\<lambda>balance min. roundedDiff balance < roundedDiff min) rounded"])
       (simp add: subtractAt_def)
qed

theorem roundBalancesToUnit_target_witness:
  "0 < totalRoundedOf (roundEach surplusBalances (num 100)) \<and>
   (\<exists>i<length (roundEach surplusBalances (num 100)).
      (\<forall>j<length (roundEach surplusBalances (num 100)).
         roundedDiff (roundEach surplusBalances (num 100) ! j)
           \<le> roundedDiff (roundEach surplusBalances (num 100) ! i)) \<and>
      (\<forall>j<i. roundedDiff (roundEach surplusBalances (num 100) ! j)
           < roundedDiff (roundEach surplusBalances (num 100) ! i)) \<and>
      roundBalancesToUnit surplusBalances (num 100) =
        (roundEach surplusBalances (num 100))
          [i := (roundEach surplusBalances (num 100) ! i)
             \<lparr>roundedDiff := roundedDiff (roundEach surplusBalances (num 100) ! i)
                - totalRoundedOf (roundEach surplusBalances (num 100))\<rparr>]) \<and>
   map roundedDiff (roundBalancesToUnit surplusBalances (num 100)) =
     [num (- 100), num 200, num (- 100)] \<and>
   totalRoundedOf (roundEach deficitBalances (num 100)) < 0 \<and>
   (\<exists>i<length (roundEach deficitBalances (num 100)).
      (\<forall>j<length (roundEach deficitBalances (num 100)).
         roundedDiff (roundEach deficitBalances (num 100) ! i)
           \<le> roundedDiff (roundEach deficitBalances (num 100) ! j)) \<and>
      (\<forall>j<i. roundedDiff (roundEach deficitBalances (num 100) ! i)
           < roundedDiff (roundEach deficitBalances (num 100) ! j)) \<and>
      roundBalancesToUnit deficitBalances (num 100) =
        (roundEach deficitBalances (num 100))
          [i := (roundEach deficitBalances (num 100) ! i)
             \<lparr>roundedDiff := roundedDiff (roundEach deficitBalances (num 100) ! i)
                - totalRoundedOf (roundEach deficitBalances (num 100))\<rparr>]) \<and>
   map roundedDiff (roundBalancesToUnit deficitBalances (num 100)) =
     [num 0, num (- 100), num 100]"
proof -
  have p: "0 < totalRoundedOf (roundEach surplusBalances (num 100))"
    by (simp add: totalRoundedOf_sum surplus_rounded sumNumbers_def number_eval)
  have n: "totalRoundedOf (roundEach deficitBalances (num 100)) < 0"
    by (simp add: totalRoundedOf_sum deficit_rounded sumNumbers_def number_eval)
  note A = roundBalancesToUnit_target[OF refl refl, of surplusBalances "num 100",
      THEN conjunct1, THEN mp, OF p]
  note B = roundBalancesToUnit_target[OF refl refl, of deficitBalances "num 100",
      THEN conjunct2, THEN mp, OF n]
  show ?thesis
    by (intro conjI p A surplus_result n B deficit_result)
qed

subsection \<open>C10: what the normalizer leaves unchanged\<close>

text \<open>
  C10 (as amended). \<open>roundBalancesToUnit\<close> returns a list of the same length and order as
  its input; every output element has the \<open>participant\<close>, \<open>paid\<close>, \<open>shouldPay\<close> and
  \<open>diff\<close> of the input element at the same position; and for all positions but at most
  one the \<open>roundedDiff\<close> is \<open>round(diff / unit) * unit\<close> when the \<open>diff\<close> is finite, and
  \<open>0\<close> when it is not.
\<close>

theorem roundBalancesToUnit_frame:
  "length (roundBalancesToUnit balances unit) = length balances \<and>
   (\<forall>j<length balances.
      participant (roundBalancesToUnit balances unit ! j) = participant (balances ! j) \<and>
      paid (roundBalancesToUnit balances unit ! j) = paid (balances ! j) \<and>
      shouldPay (roundBalancesToUnit balances unit ! j) = shouldPay (balances ! j) \<and>
      diff (roundBalancesToUnit balances unit ! j) = diff (balances ! j)) \<and>
   (\<exists>i. \<forall>j<length balances. j \<noteq> i \<longrightarrow>
      roundedDiff (roundBalancesToUnit balances unit ! j) =
        (if isFinite (diff (balances ! j))
         then Math_round (diff (balances ! j) / unit) * unit else 0))"
proof -
  let ?res = "roundBalancesToUnit balances unit"
  have len: "length ?res = length balances"
    by (simp add: roundBalancesToUnit_unfold)
  have tr: "map CalculatedBalance.truncate ?res = balances"
    by (simp add: roundBalancesToUnit_unfold)
  have fields: "\<forall>j<length balances.
      participant (?res ! j) = participant (balances ! j) \<and>
      paid (?res ! j) = paid (balances ! j) \<and>
      shouldPay (?res ! j) = shouldPay (balances ! j) \<and>
      diff (?res ! j) = diff (balances ! j)"
  proof (intro allI impI)
    fix j assume j: "j < length balances"
    then have "CalculatedBalance.truncate (?res ! j) = balances ! j"
      using tr len by (metis nth_map)
    then have "balances ! j = CalculatedBalance.truncate (?res ! j)" by simp
    then show "participant (?res ! j) = participant (balances ! j) \<and>
      paid (?res ! j) = paid (balances ! j) \<and>
      shouldPay (?res ! j) = shouldPay (balances ! j) \<and>
      diff (?res ! j) = diff (balances ! j)"
      by (simp add: CalculatedBalance.truncate_def)
  qed
  have "\<exists>i. ?res = roundEach balances unit \<or>
             ?res = subtractAt i (totalRoundedOf (roundEach balances unit)) (roundEach balances unit)"
    by (auto simp add: roundBalancesToUnit_unfold)
  then obtain i where "?res = roundEach balances unit \<or>
             ?res = subtractAt i (totalRoundedOf (roundEach balances unit)) (roundEach balances unit)"
    by blast
  then have "\<forall>j<length balances. j \<noteq> i \<longrightarrow>
      roundedDiff (?res ! j) =
        (if isFinite (diff (balances ! j))
         then Math_round (diff (balances ! j) / unit) * unit else 0)"
    by (auto simp: subtractAt_def nth_roundEach roundToUnit_def)
  then show ?thesis using len fields by blast
qed

theorem roundBalancesToUnit_frame_witness:
  "(1::nat) < length surplusBalances \<and>
   length (roundBalancesToUnit surplusBalances (num 100)) = length surplusBalances \<and>
   participant (roundBalancesToUnit surplusBalances (num 100) ! 1) = bob \<and>
   paid (roundBalancesToUnit surplusBalances (num 100) ! 1) = num 150 \<and>
   shouldPay (roundBalancesToUnit surplusBalances (num 100) ! 1) = num 0 \<and>
   diff (roundBalancesToUnit surplusBalances (num 100) ! 1) = num 150 \<and>
   roundedDiff (roundBalancesToUnit surplusBalances (num 100) ! 1) = num 200 \<and>
   Math_round (diff (surplusBalances ! 1) / num 100) * num 100 = num 200"
proof -
  have l: "(1::nat) < length surplusBalances" by (simp add: surplusBalances_def)
  have b: "surplusBalances ! 1 = balanceOf bob (num 150) 0" by (simp add: surplusBalances_def)
  have r: "roundedDiff (roundBalancesToUnit surplusBalances (num 100) ! 1) = num 200"
    using surplus_result l
    by (metis length_map nth_map roundBalancesToUnit_frame nth_Cons_0 nth_Cons_Suc One_nat_def)
  have m: "Math_round (diff (surplusBalances ! 1) / num 100) * num 100 = num 200"
    by (simp add: surplusBalances_def balanceOf_def number_eval)
  show ?thesis
    using roundBalancesToUnit_frame[of surplusBalances "num 100"] l b r m
    by (simp add: balanceOf_def number_eval)
qed

lemma infiniteDiffs_result:
  "map roundedDiff (roundBalancesToUnit infiniteDiffs (num 100)) = [num 0, num 0, num 0]"
  by (simp add: infiniteDiffs_def example_defs number_eval rounding_eval upt_conv_Cons)

text \<open>
  As the claim words it (\<open>round(diff / unit) * unit\<close> for all elements but at most one),
  C10 fails where a \<open>diff\<close> is not finite: of the diffs \<open>+\<infinity>, +\<infinity>, 300\<close> the first two
  get the \<open>roundedDiff\<close> \<open>0\<close>, not \<open>+\<infinity>\<close>, and the third absorbs the drift: no element
  has the value of the formula.
\<close>

theorem frame_formula_counterexample:
  "map roundedDiff (roundBalancesToUnit infiniteDiffs (num 100)) = [num 0, num 0, num 0] \<and>
   map (\<lambda>b. Math_round (diff b / num 100) * num 100) infiniteDiffs = [PInf, PInf, num 300] \<and>
   roundedDiff (roundBalancesToUnit infiniteDiffs (num 100) ! 0)
     \<noteq> Math_round (diff (infiniteDiffs ! 0) / num 100) * num 100 \<and>
   roundedDiff (roundBalancesToUnit infiniteDiffs (num 100) ! 1)
     \<noteq> Math_round (diff (infiniteDiffs ! 1) / num 100) * num 100 \<and>
   roundedDiff (roundBalancesToUnit infiniteDiffs (num 100) ! 2)
     \<noteq> Math_round (diff (infiniteDiffs ! 2) / num 100) * num 100"
proof -
  have f: "map (\<lambda>b. Math_round (diff b / num 100) * num 100) infiniteDiffs = [PInf, PInf, num 300]"
    by (simp add: infiniteDiffs_def example_defs number_eval num_representable representable_numeral)
  have r: "roundedDiff (roundBalancesToUnit infiniteDiffs (num 100) ! j) = num 0" if "j < 3" for j
  proof -
    have "map roundedDiff (roundBalancesToUnit infiniteDiffs (num 100)) ! j = [num 0, num 0, num 0] ! j"
      by (simp only: infiniteDiffs_result)
    moreover have "j < length (roundBalancesToUnit infiniteDiffs (num 100))"
      using that by (simp add: roundBalancesToUnit_unfold infiniteDiffs_def)
    ultimately show ?thesis using that by (auto simp: less_Suc_eq numeral_3_eq_3)
  qed
  have g: "Math_round (diff (infiniteDiffs ! 0) / num 100) * num 100 = PInf"
    "Math_round (diff (infiniteDiffs ! 1) / num 100) * num 100 = PInf"
    "Math_round (diff (infiniteDiffs ! 2) / num 100) * num 100 = num 300"
    by (simp_all add: infiniteDiffs_def example_defs number_eval num_representable representable_numeral)
  show ?thesis
    using infiniteDiffs_result f r[of 0] r[of 1] r[of 2] g by (simp add: number_eval)
qed

subsection \<open>An entry rounded to zero is not the one adjusted\<close>

lemma num_not_NaN [simp]: "num x \<noteq> NaN"
  using num_cases[of x] by auto

lemma roundToUnit_not_NaN:
  assumes "isFinite unit" "0 < unit"
  shows "roundToUnit v unit \<noteq> NaN"
proof (cases v)
  case (Fin a)
  obtain u where u: "unit = Fin u" "0 < valueOf u" using assms by (auto simp: zero_less_iff)
  have q: "Fin a / Fin u = num (valueOf a / valueOf u)" using u by simp
  from num_cases[of "valueOf a / valueOf u"] show ?thesis
  proof (elim disjE conjE exE)
    fix b assume "num (valueOf a / valueOf u) = Fin b"
    then show ?thesis using Fin u q
      by (simp add: roundToUnit_def num_representable[OF representable_round[OF representable_valueOf]])
  qed (use Fin u q in \<open>simp_all add: roundToUnit_def\<close>)
qed (simp_all add: roundToUnit_def zero_number_def)

lemma roundEach_not_NaN:
  assumes "isFinite unit" "0 < unit"
  shows "\<forall>b\<in>set (roundEach balances unit). roundedDiff b \<noteq> NaN"
  using roundToUnit_not_NaN[OF assms] by (auto simp: roundEach_def)

lemma positive_not_zero: "(0::number) < x \<Longrightarrow> x \<noteq> 0" "x < (0::number) \<Longrightarrow> x \<noteq> 0"
  by auto

lemma number_le_less_trans_zero: "(0::number) < x \<Longrightarrow> x \<le> y \<Longrightarrow> 0 < y"
  by (cases x; cases y) (simp_all add: zero_Fin)

lemma number_le_less_trans_zero': "x < (0::number) \<Longrightarrow> y \<le> x \<Longrightarrow> y < 0"
  by (cases x; cases y) (simp_all add: zero_Fin)

lemma zero_entry_not_adjusted:
  assumes u: "isFinite unit" "0 < unit" and j: "j < length balances"
    and zero: "roundedDiff (roundEach balances unit ! j) = 0"
  shows "roundedDiff (roundBalancesToUnit balances unit ! j) = 0"
proof -
  let ?rounded = "roundEach balances unit"
  let ?drift = "totalRoundedOf ?rounded"
  have nan: "\<forall>b\<in>set ?rounded. roundedDiff b \<noteq> NaN" using u by (rule roundEach_not_NaN)
  then have nan': "NaN \<notin> set (map roundedDiff ?rounded)" by auto
  have jr: "j < length ?rounded" using j by simp
  have ne: "balances \<noteq> []" using j by auto
  then have ne': "?rounded \<noteq> []" by (simp add: roundEach_def)
  show ?thesis
  proof (cases "strictEquals ?drift 0")
    case True
    then show ?thesis using zero by (simp add: roundBalancesToUnit_unfold)
  next
    case nz: False
    show ?thesis
    proof (cases "0 < ?drift")
      case True
      let ?i = "reduceIndex (\<lambda>balance max. roundedDiff balance > roundedDiff max) ?rounded"
      have res: "roundBalancesToUnit balances unit = subtractAt ?i ?drift ?rounded"
        using nz True ne by (simp add: roundBalancesToUnit_unfold)
      from True obtain x where "x \<in> set (map roundedDiff ?rounded)" "0 < x"
        using sum_positive_has_positive[of "map roundedDiff ?rounded"]
        by (auto simp: totalRoundedOf_sum)
      then obtain m where m: "m < length ?rounded" "0 < roundedDiff (?rounded ! m)"
        by (auto simp: in_set_conv_nth)
      from first_max_target[OF nan ne']
      have "roundedDiff (?rounded ! m) \<le> roundedDiff (?rounded ! ?i)" using m(1) by blast
      then have "0 < roundedDiff (?rounded ! ?i)"
        using m(2) number_le_less_trans_zero by blast
      then have "?i \<noteq> j" using zero by auto
      then show ?thesis using zero jr by (simp add: res subtractAt_def)
    next
      case False
      let ?i = "reduceIndex (\<lambda>balance min. roundedDiff balance < roundedDiff min) ?rounded"
      have res: "roundBalancesToUnit balances unit = subtractAt ?i ?drift ?rounded"
        using nz False ne by (simp add: roundBalancesToUnit_unfold)
      have "sumNumbers (map roundedDiff ?rounded) \<noteq> 0"
        using nz by (simp add: strictEquals_zero totalRoundedOf_sum)
      then obtain x where "x \<in> set (map roundedDiff ?rounded)" "x < 0"
        using sum_not_positive_has_negative[of "map roundedDiff ?rounded"] False nan'
        by (auto simp: totalRoundedOf_sum)
      then obtain m where m: "m < length ?rounded" "roundedDiff (?rounded ! m) < 0"
        by (auto simp: in_set_conv_nth)
      from first_min_target[OF nan ne']
      have "roundedDiff (?rounded ! ?i) \<le> roundedDiff (?rounded ! m)" using m(1) by blast
      then have "roundedDiff (?rounded ! ?i) < 0"
        using m(2) number_le_less_trans_zero' by blast
      then have "?i \<noteq> j" using zero by auto
      then show ?thesis using zero jr by (simp add: res subtractAt_def)
    qed
  qed
qed

subsection \<open>Whole numbers: sums without rounding\<close>

lemma isInteger_iff: "isInteger x \<longleftrightarrow> (\<exists>a n. x = Fin a \<and> valueOf a = of_int n)"
  by (cases x) (auto intro: exI[of _ "\<lfloor>valueOf _\<rfloor>"])

lemma of_int_abs_le: "\<bar>n\<bar> \<le> 2 ^ 53 \<longleftrightarrow> \<bar>of_int n :: rat\<bar> \<le> 2 ^ 53"
  by (metis of_int_abs of_int_le_numeral_power_cancel_iff)

lemma num_of_int:
  assumes "\<bar>of_int n :: rat\<bar> \<le> 2 ^ 53"
  shows "isInteger (num (of_int n))" "val (num (of_int n)) = of_int n"
    "isFinite (num (of_int n))" "representable (of_int n)"
proof -
  have "\<bar>n\<bar> \<le> 2 ^ 53" using assms by (simp add: of_int_abs_le)
  then show r: "representable (of_int n)" by (rule representable_int)
  then show "isInteger (num (of_int n))" "val (num (of_int n)) = of_int n"
    "isFinite (num (of_int n))"
    by (simp_all add: num_representable)
qed

lemma isInteger_val: "isInteger x \<Longrightarrow> \<exists>n::int. x = num (of_int n) \<and> val x = of_int n"
  by (auto simp: isInteger_iff) (metis num_valueOf)

lemma positiveSum_Nil [simp]: "positiveSum [] = 0"
  by (simp add: positiveSum_def)

lemma negativeSum_Nil [simp]: "negativeSum [] = 0"
  by (simp add: negativeSum_def)

lemma positiveSum_Cons [simp]: "positiveSum (x # xs) = max 0 (val x) + positiveSum xs"
  by (simp add: positiveSum_def)

lemma negativeSum_Cons [simp]: "negativeSum (x # xs) = max 0 (- val x) + negativeSum xs"
  by (simp add: negativeSum_def)

lemma positiveSum_nonneg: "0 \<le> positiveSum xs"
  by (induction xs) simp_all

lemma negativeSum_nonneg: "0 \<le> negativeSum xs"
  by (induction xs) simp_all

lemma member_le_sums:
  "x \<in> set xs \<Longrightarrow> max 0 (val x) \<le> positiveSum xs \<and> max 0 (- val x) \<le> negativeSum xs"
proof (induction xs)
  case Nil
  then show ?case by simp
next
  case (Cons y ys)
  have "0 \<le> positiveSum ys" "0 \<le> negativeSum ys"
    by (rule positiveSum_nonneg, rule negativeSum_nonneg)
  then show ?case using Cons by auto
qed

lemma sum_val_split: "sum_list (map val xs) = positiveSum xs - negativeSum xs"
  by (induction xs) (simp_all add: max_def)

lemma foldl_plus_exact:
  assumes "\<forall>x\<in>set xs. isInteger x"
    and "of_int a + positiveSum xs \<le> 2 ^ 53" and "- (2 ^ 53) \<le> of_int a - negativeSum xs"
  shows "\<exists>n::int. foldl (+) (num (of_int a)) xs = num (of_int n) \<and>
           of_int n = of_int a + sum_list (map val xs) \<and> \<bar>of_int n :: rat\<bar> \<le> 2 ^ 53"
  using assms
proof (induction xs arbitrary: a)
  case Nil
  then show ?case by (intro exI[of _ a]) simp
next
  case (Cons x xs)
  from Cons.prems(1) obtain m :: int where m: "x = num (of_int m)" "val x = of_int m"
    using isInteger_val[of x] by auto
  have p: "0 \<le> positiveSum xs" and q: "0 \<le> negativeSum xs"
    by (rule positiveSum_nonneg, rule negativeSum_nonneg)
  have up: "of_int a + max 0 (of_int m) + positiveSum xs \<le> (2::rat) ^ 53"
    and lo: "- (2 ^ 53) \<le> of_int a - max 0 (- of_int m) - negativeSum xs"
    using Cons.prems(2,3) m(2) by simp_all
  have "\<bar>of_int a :: rat\<bar> \<le> 2 ^ 53" using up lo p q by (simp add: max_def split: if_splits)
  then have ra: "representable (of_int a)" by (rule num_of_int(4))
  have "isFinite x" using Cons.prems(1) by (cases x) simp_all
  then have rm: "representable (of_int m)" using representable_val[of x] m(2) by simp
  have step: "num (of_int a) + x = num (of_int (a + m))"
    using ra rm by (simp add: m(1) num_plus)
  have up': "of_int (a + m) + positiveSum xs \<le> (2::rat) ^ 53"
    using up by (simp add: max_def split: if_splits)
  have lo': "- (2 ^ 53) \<le> of_int (a + m) - negativeSum xs"
    using lo by (simp add: max_def split: if_splits)
  from Cons.IH[OF _ up' lo'] Cons.prems(1) obtain n :: int where
    n: "foldl (+) (num (of_int (a + m))) xs = num (of_int n)"
       "of_int n = of_int (a + m) + sum_list (map val xs)" "\<bar>of_int n :: rat\<bar> \<le> 2 ^ 53"
    by auto
  show ?case using n by (intro exI[of _ n]) (simp add: step m(2))
qed

lemma sumNumbers_exact:
  assumes "safeIntegers xs"
  shows "\<exists>n::int. sumNumbers xs = num (of_int n) \<and> of_int n = sum_list (map val xs) \<and>
           \<bar>of_int n :: rat\<bar> \<le> 2 ^ 53"
  using foldl_plus_exact[of xs 0] assms by (simp add: safeIntegers_def sumNumbers_def zero_number_def)

lemma num_of_int_eq_zero: "\<bar>of_int n :: rat\<bar> \<le> 2 ^ 53 \<Longrightarrow> (num (of_int n) = 0) = (n = 0)"
  using num_eq[of "of_int n" 0] num_of_int(4)[of n] by (simp add: zero_number_def)

lemma positiveSum_update:
  "i < length xs \<Longrightarrow>
   positiveSum (xs[i := y]) = positiveSum xs - max 0 (val (xs ! i)) + max 0 (val y)"
proof (induction xs arbitrary: i)
  case Nil
  then show ?case by simp
next
  case (Cons x xs)
  then show ?case by (cases i) simp_all
qed

lemma negativeSum_update:
  "i < length xs \<Longrightarrow>
   negativeSum (xs[i := y]) = negativeSum xs - max 0 (- val (xs ! i)) + max 0 (- val y)"
proof (induction xs arbitrary: i)
  case Nil
  then show ?case by simp
next
  case (Cons x xs)
  then show ?case by (cases i) simp_all
qed

lemma sum_val_update:
  "i < length xs \<Longrightarrow>
   sum_list (map val (xs[i := y])) = sum_list (map val xs) - val (xs ! i) + val y"
proof (induction xs arbitrary: i)
  case Nil
  then show ?case by simp
next
  case (Cons x xs)
  then show ?case by (cases i) simp_all
qed

subsection \<open>C2: the rounded differences sum to zero\<close>

lemma largeBalances_rounded:
  "map roundedDiff (roundEach largeBalances (num 1))
     = [num 9007199254740992, num 1, num 1]"
  by (simp add: largeBalances_def example_defs number_eval rounding_eval)

lemma largeBalances_result:
  "map roundedDiff (roundBalancesToUnit largeBalances (num 1)) = [num 0, num 1, num 1]"
  by (simp add: largeBalances_def example_defs number_eval rounding_eval upt_conv_Cons
      num_2_53_plus_1)

text \<open>
  C2 (as amended). For every list of balances (empty or not) and every unit, so every
  positive integer unit, such that the values first given to the diffs,
  \<open>round(diff / unit) * unit\<close> for a finite \<open>diff\<close> and \<open>0\<close> for one that is not finite,
  are whole numbers of which the positive ones sum to at most \<open>2^53\<close> and the negative
  ones to at least \<open>-2^53\<close>: the \<open>roundedDiff\<close> values returned by
  \<open>roundBalancesToUnit\<close> sum to exactly \<open>0\<close>, as JavaScript adds them and as rationals
  (they are again such whole numbers). Before the correction each \<open>roundedDiff\<close> is the
  value above. When their sum (the drift) is \<open>0\<close> the rounded list is returned as it is;
  when it is not, exactly one entry is changed, by subtracting the drift from it.
\<close>

theorem rounding_closure:
  assumes safe: "safeIntegers (map (\<lambda>b. if isFinite (diff b)
      then Math_round (diff b / unit) * unit else 0) balances)"
  shows "sumNumbers (map roundedDiff (roundBalancesToUnit balances unit)) = 0 \<and>
         safeIntegers (map roundedDiff (roundBalancesToUnit balances unit)) \<and>
         sum_list (map val (map roundedDiff (roundBalancesToUnit balances unit))) = 0 \<and>
         (\<forall>j<length balances.
            roundedDiff (roundEach balances unit ! j) =
              (if isFinite (diff (balances ! j))
               then Math_round (diff (balances ! j) / unit) * unit else 0)) \<and>
         (totalRoundedOf (roundEach balances unit) = 0 \<longrightarrow>
            roundBalancesToUnit balances unit = roundEach balances unit) \<and>
         (totalRoundedOf (roundEach balances unit) \<noteq> 0 \<longrightarrow>
            (\<exists>i<length balances.
               roundBalancesToUnit balances unit =
                 (roundEach balances unit)
                   [i := (roundEach balances unit ! i)
                      \<lparr>roundedDiff := roundedDiff (roundEach balances unit ! i)
                         - totalRoundedOf (roundEach balances unit)\<rparr>] \<and>
               roundedDiff (roundBalancesToUnit balances unit ! i)
                 \<noteq> roundedDiff (roundEach balances unit ! i)))"
proof -
  let ?rounded = "roundEach balances unit"
  let ?drift = "totalRoundedOf ?rounded"
  let ?vals = "map roundedDiff ?rounded"
  have vals: "?vals = map (\<lambda>b. if isFinite (diff b)
      then Math_round (diff b / unit) * unit else 0) balances"
    by (simp add: roundEach_def roundToUnit_def comp_def)
  have safe: "safeIntegers ?vals" using safe by (simp only: vals)
  have ints: "\<forall>x\<in>set ?vals. isInteger x"
    and pos: "positiveSum ?vals \<le> 2 ^ 53" and neg: "negativeSum ?vals \<le> 2 ^ 53"
    using safe unfolding safeIntegers_def by blast+
  from sumNumbers_exact[OF safe] obtain t :: int where
    t: "?drift = num (of_int t)" "of_int t = sum_list (map val ?vals)" "\<bar>of_int t :: rat\<bar> \<le> 2 ^ 53"
    by (auto simp: totalRoundedOf_sum)
  have tsplit: "of_int t = positiveSum ?vals - negativeSum ?vals"
    using t(2) by (simp only: sum_val_split)
  have drift0: "(?drift = 0) = (t = 0)" using t(1,3) by (simp add: num_of_int_eq_zero)
  have naive: "\<forall>j<length balances.
            roundedDiff (?rounded ! j) =
              (if isFinite (diff (balances ! j))
               then Math_round (diff (balances ! j) / unit) * unit else 0)"
    by (simp add: nth_roundEach roundToUnit_def)
  have same: "?drift = 0 \<longrightarrow> roundBalancesToUnit balances unit = ?rounded"
    by (simp add: roundBalancesToUnit_unfold strictEquals_def)
  have idx: "\<exists>i<length balances. roundBalancesToUnit balances unit = subtractAt i ?drift ?rounded"
    if nz: "?drift \<noteq> 0"
  proof -
    have ne: "balances \<noteq> []" using nz by (rule total_nonzero_nonempty)
    then have ne': "?rounded \<noteq> []" by (simp add: roundEach_def)
    have se: "\<not> strictEquals ?drift 0" using nz by (simp add: strictEquals_def)
    show ?thesis
    proof (cases "0 < ?drift")
      case True
      then show ?thesis
        using se ne reduceIndex_less[OF ne', of "\<lambda>balance max. roundedDiff balance > roundedDiff max"]
        by (auto simp add: roundBalancesToUnit_unfold)
    next
      case False
      then show ?thesis
        using se ne reduceIndex_less[OF ne', of "\<lambda>balance min. roundedDiff balance < roundedDiff min"]
        by (auto simp add: roundBalancesToUnit_unfold)
    qed
  qed
  have adjusted: "sumNumbers (map roundedDiff (subtractAt i ?drift ?rounded)) = 0 \<and>
      safeIntegers (map roundedDiff (subtractAt i ?drift ?rounded)) \<and>
      sum_list (map val (map roundedDiff (subtractAt i ?drift ?rounded))) = 0 \<and>
      roundedDiff (subtractAt i ?drift ?rounded ! i) \<noteq> roundedDiff (?rounded ! i)"
    if nz: "?drift \<noteq> 0" and i: "i < length balances" for i
  proof -
    have il: "i < length ?vals" using i by simp
    have "isInteger (?vals ! i)" using ints il nth_mem by blast
    then obtain n :: int where n: "?vals ! i = num (of_int n)" "val (?vals ! i) = of_int n"
      using isInteger_val by blast
    define P where "P = positiveSum ?vals - max 0 (of_int n)"
    define N where "N = negativeSum ?vals - max 0 (- of_int n)"
    have "max 0 (of_int n) \<le> positiveSum ?vals \<and> max 0 (- of_int n) \<le> negativeSum ?vals"
      using member_le_sums[OF nth_mem[OF il]] by (simp only: n(2))
    then have PN: "0 \<le> P" "0 \<le> N" unfolding P_def N_def by linarith+
    have P53: "P \<le> 2 ^ 53" and N53: "N \<le> 2 ^ 53"
      using pos neg by (simp_all add: P_def N_def max_def split: if_splits)
    have others: "(of_int n :: rat) - of_int t = N - P"
      using tsplit by (simp add: P_def N_def max_def split: if_splits)
    have rn: "representable (of_int n)" using representable_val[of "?vals ! i"] by (simp only: n(2))
    have rt: "representable (of_int t)" using t(3) by (rule num_of_int(4))
    define y where "y = num (of_int (n - t))"
    have new: "roundedDiff (?rounded ! i) - ?drift = y"
      using n(1) il rn rt by (simp add: t(1) num_minus y_def)
    have y53: "\<bar>of_int (n - t) :: rat\<bar> \<le> 2 ^ 53"
      using others PN P53 N53 by simp
    note Y = num_of_int[OF y53]
    have vy: "val y = N - P" unfolding y_def using Y(2) others by simp
    have vals': "map roundedDiff (subtractAt i ?drift ?rounded) = ?vals[i := y]"
      using il by (simp add: subtractAt_def map_update new)
    have ints': "\<forall>x\<in>set (?vals[i := y]). isInteger x"
    proof
      fix x assume "x \<in> set (?vals[i := y])"
      then have "x \<in> insert y (set ?vals)" using set_update_subset_insert by fast
      then show "isInteger x" using ints Y(1) by (auto simp: y_def)
    qed
    have "positiveSum (?vals[i := y]) = P + max 0 (N - P)"
      using il by (simp add: positiveSum_update n(2) vy P_def del: length_map)
    then have pos': "positiveSum (?vals[i := y]) \<le> 2 ^ 53"
      using PN P53 N53 by (simp add: max_def)
    have "negativeSum (?vals[i := y]) = N + max 0 (- (N - P))"
      using il by (simp add: negativeSum_update n(2) vy N_def del: length_map)
    then have neg': "negativeSum (?vals[i := y]) \<le> 2 ^ 53"
      using PN P53 N53 by (simp add: max_def)
    have safe': "safeIntegers (?vals[i := y])" using ints' pos' neg' by (simp add: safeIntegers_def)
    have "sum_list (map val (?vals[i := y])) = sum_list (map val ?vals) - of_int n + (N - P)"
      using il by (simp add: sum_val_update n(2) vy del: length_map)
    then have zero: "sum_list (map val (?vals[i := y])) = 0" using t(2) others by simp
    from sumNumbers_exact[OF safe'] zero have js: "sumNumbers (?vals[i := y]) = 0"
      by (auto simp: zero_number_def)
    have "t \<noteq> 0" using nz drift0 by simp
    then have "of_int (n - t) \<noteq> (of_int n :: rat)" by simp
    then have "y \<noteq> num (of_int n)" using Y(4) rn by (simp add: y_def num_eq)
    then have changed: "roundedDiff (subtractAt i ?drift ?rounded ! i) \<noteq> roundedDiff (?rounded ! i)"
      using il n(1) new by (simp add: subtractAt_def)
    show ?thesis unfolding vals' using js safe' zero changed[unfolded vals'] by blast
  qed
  have adj: "?drift \<noteq> 0 \<longrightarrow>
            (\<exists>i<length balances.
               roundBalancesToUnit balances unit =
                 ?rounded[i := (?rounded ! i)\<lparr>roundedDiff := roundedDiff (?rounded ! i) - ?drift\<rparr>] \<and>
               roundedDiff (roundBalancesToUnit balances unit ! i) \<noteq> roundedDiff (?rounded ! i))"
  proof
    assume nz: "?drift \<noteq> 0"
    from idx[OF nz] obtain i where i: "i < length balances"
      and res: "roundBalancesToUnit balances unit = subtractAt i ?drift ?rounded" by blast
    from adjusted[OF nz i] show "\<exists>i<length balances.
               roundBalancesToUnit balances unit =
                 ?rounded[i := (?rounded ! i)\<lparr>roundedDiff := roundedDiff (?rounded ! i) - ?drift\<rparr>] \<and>
               roundedDiff (roundBalancesToUnit balances unit ! i) \<noteq> roundedDiff (?rounded ! i)"
      using i res by (intro exI[of _ i]) (simp add: subtractAt_def)
  qed
  have closed: "sumNumbers (map roundedDiff (roundBalancesToUnit balances unit)) = 0 \<and>
         safeIntegers (map roundedDiff (roundBalancesToUnit balances unit)) \<and>
         sum_list (map val (map roundedDiff (roundBalancesToUnit balances unit))) = 0"
  proof (cases "?drift = 0")
    case True
    then have r: "roundBalancesToUnit balances unit = ?rounded" using same by blast
    have "sumNumbers ?vals = 0" using True by (simp add: totalRoundedOf_sum)
    moreover have "sum_list (map val ?vals) = 0" using True drift0 t(2) by simp
    ultimately show ?thesis using safe by (simp only: r)
  next
    case False
    from idx[OF False] obtain i where i: "i < length balances"
      and res: "roundBalancesToUnit balances unit = subtractAt i ?drift ?rounded" by blast
    from adjusted[OF False i] show ?thesis by (simp only: res)
  qed
  show ?thesis using closed naive same adj by blast
qed

lemma safeIntegers_eval:
  "safeIntegers xs \<longleftrightarrow>
     list_all isInteger xs \<and> positiveSum xs \<le> 2 ^ 53 \<and> negativeSum xs \<le> 2 ^ 53"
  by (simp add: safeIntegers_def list_all_iff)

lemma isInteger_num: "representable (of_int n) \<Longrightarrow> isInteger (num (of_int n))"
  by (simp add: num_representable)

lemma isInteger_numeral:
  "representable (numeral w) \<Longrightarrow> isInteger (num (numeral w))"
  "representable (numeral w) \<Longrightarrow> isInteger (num (- numeral w))"
  "representable (numeral w) \<Longrightarrow> val (num (numeral w)) = numeral w"
  "representable (numeral w) \<Longrightarrow> val (num (- numeral w)) = - numeral w"
  "isInteger (num 1)" "isInteger (num (- 1))" "val (num 1) = 1" "val (num (- 1)) = - 1"
  using isInteger_num[of "numeral w"] isInteger_num[of "- numeral w"]
    isInteger_num[of 1] isInteger_num[of "- 1"]
  by (simp_all add: num_representable)

theorem rounding_closure_witness:
  "safeIntegers (map (\<lambda>b. if isFinite (diff b)
      then Math_round (diff b / num 100) * num 100 else 0) surplusBalances) \<and>
   map diff surplusBalances = [num 150, num 150, num (- 100)] \<and>
   sumNumbers (map roundedDiff (roundBalancesToUnit surplusBalances (num 100))) = 0 \<and>
   map roundedDiff (roundEach surplusBalances (num 100)) = [num 200, num 200, num (- 100)] \<and>
   map roundedDiff (roundBalancesToUnit surplusBalances (num 100)) =
     [num (- 100), num 200, num (- 100)]"
proof -
  have v: "map (\<lambda>b. if isFinite (diff b)
      then Math_round (diff b / num 100) * num 100 else 0) surplusBalances
        = [num 200, num 200, num (- 100)]"
    by (simp add: example_defs number_eval)
  have s: "safeIntegers (map (\<lambda>b. if isFinite (diff b)
      then Math_round (diff b / num 100) * num 100 else 0) surplusBalances)"
    unfolding v by (simp add: safeIntegers_eval isInteger_numeral representable_numeral)
  have d: "map diff surplusBalances = [num 150, num 150, num (- 100)]"
    by (simp add: example_defs number_eval)
  show ?thesis
    using rounding_closure[OF s] s d surplus_rounded surplus_result by simp
qed

text \<open>
  As the claim words it C2 fails in two ways. Beyond \<open>2^53\<close> sums are rounded: of the
  diffs \<open>2^53, 1, 1\<close> with the unit \<open>1\<close>, whose rounded values sum to \<open>2^53 + 2\<close>, the
  drift is computed as \<open>2^53\<close> (adding \<open>1\<close> to \<open>2^53\<close> gives \<open>2^53\<close>), the first entry
  becomes \<open>0\<close> and the result \<open>0, 1, 1\<close> sums to \<open>2\<close>. And a \<open>diff\<close> that is not finite
  is given the \<open>roundedDiff\<close> \<open>0\<close>, not \<open>round(diff / unit) * unit\<close>, also when it is not the
  one entry that absorbs the drift.
\<close>

theorem rounding_closure_counterexample:
  "isInteger (num 1) \<and> 0 < num 1 \<and>
   map diff largeBalances = [num (2 ^ 53), num 1, num 1] \<and>
   map (\<lambda>b. Math_round (diff b / num 1) * num 1) largeBalances = [num (2 ^ 53), num 1, num 1] \<and>
   positiveSum [num (2 ^ 53), num 1, num 1] = 2 ^ 53 + 2 \<and>
   map roundedDiff (roundBalancesToUnit largeBalances (num 1)) = [num 0, num 1, num 1] \<and>
   sumNumbers (map roundedDiff (roundBalancesToUnit largeBalances (num 1))) = num 2 \<and>
   sumNumbers (map roundedDiff (roundBalancesToUnit largeBalances (num 1))) \<noteq> 0 \<and>
   map roundedDiff (roundBalancesToUnit infiniteDiffs (num 100)) = [num 0, num 0, num 0] \<and>
   roundedDiff (roundEach infiniteDiffs (num 100) ! 0) = num 0 \<and>
   Math_round (diff (infiniteDiffs ! 0) / num 100) * num 100 = PInf"
proof -
  have u: "isInteger (num 1)" "0 < num 1" by (simp_all add: num_representable zero_Fin)
  have d: "map diff largeBalances = [num (2 ^ 53), num 1, num 1]"
    by (simp add: largeBalances_def example_defs number_eval)
  have v: "map (\<lambda>b. Math_round (diff b / num 1) * num 1) largeBalances = [num (2 ^ 53), num 1, num 1]"
    "positiveSum [num (2 ^ 53), num 1, num 1] = 2 ^ 53 + 2"
    by (simp_all add: largeBalances_def example_defs number_eval isInteger_numeral)
  have s: "sumNumbers (map roundedDiff (roundBalancesToUnit largeBalances (num 1))) = num 2"
    by (simp add: largeBalances_result sumNumbers_def number_eval)
  have n: "num 2 \<noteq> 0" by (simp add: number_eval)
  have i: "roundedDiff (roundEach infiniteDiffs (num 100) ! 0) = num 0"
    "Math_round (diff (infiniteDiffs ! 0) / num 100) * num 100 = PInf"
    by (simp_all add: infiniteDiffs_def example_defs number_eval rounding_eval num_representable
        representable_numeral)
  show ?thesis using u d v largeBalances_result s n infiniteDiffs_result i by simp
qed

section \<open>The balance calculator: proofs\<close>

subsection \<open>The ledger as a map with ordered keys\<close>

lemma map_fst_ledger_set:
  "map fst (ledger_set k v l) = (if k \<in> set (map fst l) then map fst l else map fst l @ [k])"
proof (induction l)
  case Nil
  then show ?case by simp
next
  case (Cons kv l)
  then show ?case by (cases kv) (force simp: image_iff)
qed

lemma map_of_ledger_set: "map_of (ledger_set k v l) = (map_of l)(k \<mapsto> v)"
  by (induction l) auto

lemma distinct_ledger_set: "distinct (map fst l) \<Longrightarrow> distinct (map fst (ledger_set k v l))"
  by (simp add: map_fst_ledger_set)

lemma ledger_values_lookup:
  "distinct (map fst l) \<Longrightarrow> ledger_values l = map (\<lambda>k. the (map_of l k)) (map fst l)"
proof (induction l)
  case Nil
  then show ?case by (simp add: ledger_values_def)
next
  case (Cons kv l)
  obtain k v where kv: "kv = (k, v)" by (cases kv)
  have "k \<notin> set (map fst l)" using Cons.prems kv by simp
  then have "map (\<lambda>k'. the (map_of (kv # l) k')) (map fst l) = map (\<lambda>k'. the (map_of l k')) (map fst l)"
    using kv by (intro map_cong) auto
  then show ?case using Cons kv by (simp add: ledger_values_def)
qed

lemma map_fst_applyShare: "map fst (applyShare l share) = map fst l"
  by (auto simp: applyShare_def ledger_get_def map_fst_ledger_set map_of_eq_None_iff
      split: option.splits)

lemma map_fst_applyShares: "map fst (foldl applyShare l shs) = map fst l"
  by (induction shs arbitrary: l) (simp_all add: map_fst_applyShare)

lemma map_fst_applyExpense: "map fst (applyExpense l e) = map fst l"
proof (cases "map_of l (payerId e)")
  case None
  then show ?thesis
    by (simp add: applyExpense_def ledger_get_def Let_def map_fst_applyShares)
next
  case (Some payer)
  then have "payerId e \<in> set (map fst l)"
    by (metis map_of_eq_None_iff option.distinct(1) set_map)
  then show ?thesis using Some
    by (simp add: applyExpense_def ledger_get_def Let_def map_fst_applyShares map_fst_ledger_set)
qed

lemma map_fst_applyExpenses: "map fst (foldl applyExpense l es) = map fst l"
  by (induction es arbitrary: l) (simp_all add: map_fst_applyExpense)

subsection \<open>What is added to an entry, in order\<close>

lemma lookup_applyShare:
  "map_of (applyShare l share) k =
     map_option
       (\<lambda>h. h\<lparr>shouldPay := foldl (+) (shouldPay h)
                  (map ExpenseShare.amount (filter (\<lambda>s. participantId s = k) [share]))\<rparr>)
       (map_of l k)"
  by (cases "map_of l (participantId share)"; cases "map_of l k")
     (auto simp: applyShare_def ledger_get_def map_of_ledger_set)

lemma lookup_applyShares:
  "map_of (foldl applyShare l shs) k =
     map_option
       (\<lambda>h. h\<lparr>shouldPay := foldl (+) (shouldPay h)
                  (map ExpenseShare.amount (filter (\<lambda>s. participantId s = k) shs))\<rparr>)
       (map_of l k)"
proof (induction shs arbitrary: l)
  case Nil
  then show ?case by (cases "map_of l k") simp_all
next
  case (Cons share shs)
  show ?case
    by (cases "map_of l k") (simp_all add: Cons.IH lookup_applyShare)
qed

lemma paidAmounts_Cons: "paidAmounts k (e # es) = paidAmounts k [e] @ paidAmounts k es"
  by (simp add: paidAmounts_def)

lemma owedAmounts_Cons: "owedAmounts k (e # es) = owedAmounts k [e] @ owedAmounts k es"
  by (simp add: owedAmounts_def)

lemma paidAmounts_Nil [simp]: "paidAmounts k [] = []"
  by (simp add: paidAmounts_def)

lemma owedAmounts_Nil [simp]: "owedAmounts k [] = []"
  by (simp add: owedAmounts_def)

lemma lookup_applyExpense:
  "map_of (applyExpense l e) k =
     map_option (\<lambda>h. h\<lparr>paid := foldl (+) (paid h) (paidAmounts k [e]),
                        shouldPay := foldl (+) (shouldPay h) (owedAmounts k [e])\<rparr>)
       (map_of l k)"
  by (cases "map_of l (payerId e)"; cases "map_of l k")
     (auto simp: applyExpense_def ledger_get_def Let_def lookup_applyShares map_of_ledger_set
        paidAmounts_def owedAmounts_def counted_def)

lemma lookup_applyExpenses:
  "map_of (foldl applyExpense l es) k =
     map_option (\<lambda>h. h\<lparr>paid := foldl (+) (paid h) (paidAmounts k es),
                        shouldPay := foldl (+) (shouldPay h) (owedAmounts k es)\<rparr>)
       (map_of l k)"
proof (induction es arbitrary: l)
  case Nil
  then show ?case by (cases "map_of l k") simp_all
next
  case (Cons e es)
  show ?case
    by (cases "map_of l k")
       (simp_all add: Cons.IH lookup_applyExpense paidAmounts_Cons[of k e es]
          owedAmounts_Cons[of k e es])
qed

subsection \<open>The initial ledger and the closed form of the result\<close>

lemma initLedger_snoc:
  "initLedger (ps @ [p]) = ledger_set (Participant.id p) (zeroEntry p) (initLedger ps)"
  by (simp add: initLedger_def zeroEntry_def)

lemma initLedger_Nil [simp]: "initLedger [] = []"
  by (simp add: initLedger_def)

lemma distinct_initLedger: "distinct (map fst (initLedger ps))"
  by (induction ps rule: rev_induct) (simp_all add: initLedger_snoc distinct_ledger_set)

lemma keys_initLedger: "set (map fst (initLedger ps)) = Participant.id ` set ps"
  by (induction ps rule: rev_induct) (auto simp: initLedger_snoc map_fst_ledger_set)

lemma initLedger_zero:
  "(k, h) \<in> set (initLedger ps) \<Longrightarrow>
     paid h = 0 \<and> shouldPay h = 0 \<and> Participant.id (participant h) = k"
proof (induction ps arbitrary: k h rule: rev_induct)
  case Nil
  then show ?case by simp
next
  case (snoc p ps)
  from snoc.prems have "map_of (initLedger (ps @ [p])) k = Some h"
    using distinct_initLedger[of "ps @ [p]"] by simp
  then have "((map_of (initLedger ps))(Participant.id p \<mapsto> zeroEntry p)) k = Some h"
    by (simp add: initLedger_snoc map_of_ledger_set)
  then show ?case
  proof (cases "k = Participant.id p")
    case True
    then show ?thesis
      using \<open>((map_of (initLedger ps))(Participant.id p \<mapsto> zeroEntry p)) k = Some h\<close>
      by (auto simp: zeroEntry_def)
  next
    case False
    then have "map_of (initLedger ps) k = Some h"
      using \<open>((map_of (initLedger ps))(Participant.id p \<mapsto> zeroEntry p)) k = Some h\<close> by simp
    then show ?thesis using snoc.IH by (meson map_of_SomeD)
  qed
qed

lemma initLedger_distinct_ids:
  "distinct (map Participant.id ps) \<Longrightarrow>
   initLedger ps = map (\<lambda>p. (Participant.id p, zeroEntry p)) ps"
proof (induction ps rule: rev_induct)
  case Nil
  then show ?case by simp
next
  case (snoc p ps)
  have new: "Participant.id p \<notin> Participant.id ` set ps" using snoc.prems by auto
  have "ledger_set k v l = l @ [(k, v)]" if "k \<notin> fst ` set l" for k v and l :: ledger
    using that by (induction l) auto
  then show ?case using snoc new by (simp add: initLedger_snoc image_image)
qed

lemma initLedger_key: "(k, h0) \<in> set (initLedger ps) \<Longrightarrow> k \<in> Participant.id ` set ps"
  using keys_initLedger[of ps] by force

lemma ledger_eqI:
  assumes "map fst l1 = map fst l2" and "distinct (map fst l1)" and "map_of l1 = map_of l2"
  shows "l1 = (l2 :: ledger)"
proof -
  have "map snd l1 = map snd l2"
    using assms ledger_values_lookup[of l1] ledger_values_lookup[of l2]
    by (simp add: ledger_values_def)
  then show ?thesis using assms(1) by (metis zip_map_fst_snd)
qed

lemma accumulate_closed:
  "accumulate ps es =
     map (\<lambda>(k, h0). (k, h0\<lparr>paid := foldl (+) (paid h0) (paidAmounts k es),
                             shouldPay := foldl (+) (shouldPay h0) (owedAmounts k es)\<rparr>))
       (initLedger ps)"
proof (rule ledger_eqI)
  let ?f = "\<lambda>(k, h0). (k, h0\<lparr>paid := foldl (+) (paid h0) (paidAmounts k es),
                             shouldPay := foldl (+) (shouldPay h0) (owedAmounts k es)\<rparr>)"
  show "map fst (accumulate ps es) = map fst (map ?f (initLedger ps))"
    by (simp add: accumulate_def map_fst_applyExpenses comp_def case_prod_unfold)
  show "distinct (map fst (accumulate ps es))"
    by (simp add: accumulate_def map_fst_applyExpenses distinct_initLedger)
  show "map_of (accumulate ps es) = map_of (map ?f (initLedger ps))"
  proof
    fix k
    have "map_of (map ?f l) k =
          map_option (\<lambda>h0. h0\<lparr>paid := foldl (+) (paid h0) (paidAmounts k es),
                             shouldPay := foldl (+) (shouldPay h0) (owedAmounts k es)\<rparr>) (map_of l k)"
      for l :: ledger
      by (induction l) auto
    then show "map_of (accumulate ps es) k = map_of (map ?f (initLedger ps)) k"
      by (simp add: accumulate_def lookup_applyExpenses)
  qed
qed

lemma calculateBalances_closed:
  "calculateBalances ps es =
     map (\<lambda>(k, h0). \<lparr>participant = participant h0,
                       paid = Math_round (sumNumbers (paidAmounts k es)),
                       shouldPay = Math_round (sumNumbers (owedAmounts k es)),
                       diff = Math_round (sumNumbers (paidAmounts k es))
                                - Math_round (sumNumbers (owedAmounts k es))\<rparr>)
       (initLedger ps)"
proof -
  have "finalize (h0\<lparr>paid := foldl (+) (paid h0) (paidAmounts k es),
                     shouldPay := foldl (+) (shouldPay h0) (owedAmounts k es)\<rparr>) =
        \<lparr>participant = participant h0,
                       paid = Math_round (sumNumbers (paidAmounts k es)),
                       shouldPay = Math_round (sumNumbers (owedAmounts k es)),
                       diff = Math_round (sumNumbers (paidAmounts k es))
                                - Math_round (sumNumbers (owedAmounts k es))\<rparr>"
    if "(k, h0) \<in> set (initLedger ps)" for k h0
    using initLedger_zero[OF that] by (simp add: finalize_def Let_def sumNumbers_def)
  then show ?thesis
    by (auto simp: calculateBalances_def ledger_values_def accumulate_closed)
qed

lemma calculateBalances_distinct:
  "distinct (map Participant.id ps) \<Longrightarrow>
   calculateBalances ps es = map (\<lambda>p. expectedBalance p es) ps"
  by (simp add: calculateBalances_closed initLedger_distinct_ids comp_def expectedBalance_def
      zeroEntry_def)

lemmas balance_eval = calculateBalances_def accumulate_def initLedger_def applyExpense_def
  applyShare_def ledger_get_def ledger_values_def finalize_def Let_def

lemma Math_round_zero [simp]: "Math_round 0 = 0"
  by (simp add: zero_number_def num_round)

lemma number_minus_zero [simp]: "(0::number) - 0 = 0"
  by (simp add: zero_number_def num_minus)

lemma sumNumbers_Nil [simp]: "sumNumbers [] = 0"
  by (simp add: sumNumbers_def)

text \<open>Which expenses the guard lets through.\<close>

lemma counted_iff: "counted e \<longleftrightarrow> 0 < Expense.amount e \<or> Expense.amount e = NaN"
  by (cases "Expense.amount e") (auto simp: counted_def zero_Fin)

subsection \<open>C3: one balance per participant\<close>

text \<open>
  C3 (as amended). For every participants list with distinct ids and every expenses list
  in which no amount is \<open>NaN\<close>, \<open>calculateBalances\<close> returns exactly one balance per
  participant, in the order of the participants. The participant's \<open>paid\<close> is the rounded
  sum of the amounts of the expenses with \<open>amount > 0\<close> paid by that participant,
  \<open>shouldPay\<close> the rounded sum of the amounts of that participant's shares in those
  expenses, and \<open>diff = paid - shouldPay\<close>; a participant who appears in no expense has
  \<open>paid = shouldPay = diff = 0\<close>. The sums are the ones the code accumulates: from \<open>0\<close>,
  in the order of the expenses and shares, each addition rounded to a double.
\<close>

theorem calculateBalances_per_participant:
  assumes "distinct (map Participant.id participants)"
    and "\<forall>e\<in>set expenses. Expense.amount e \<noteq> NaN"
  shows "calculateBalances participants expenses =
           map (\<lambda>p. claimedBalance p expenses) participants \<and>
         (\<forall>p\<in>set participants.
            (\<forall>e\<in>set expenses. payerId e \<noteq> Participant.id p \<and>
               (\<forall>share\<in>set (shares e). participantId share \<noteq> Participant.id p)) \<longrightarrow>
            claimedBalance p expenses = \<lparr>participant = p, paid = 0, shouldPay = 0, diff = 0\<rparr>)"
proof (intro conjI ballI impI)
  have c: "\<And>e. e \<in> set expenses \<Longrightarrow> counted e = (0 < Expense.amount e)"
    using assms(2) by (simp add: counted_iff)
  have p: "paidAmounts k expenses =
      map Expense.amount (filter (\<lambda>e. 0 < Expense.amount e \<and> payerId e = k) expenses)" for k
    unfolding paidAmounts_def using c by (intro arg_cong[where f = "map Expense.amount"] filter_cong) auto
  have "filter counted expenses = filter (\<lambda>e. 0 < Expense.amount e) expenses"
    using c by (intro filter_cong) auto
  then have o: "owedAmounts k expenses =
      map ExpenseShare.amount (filter (\<lambda>share. participantId share = k)
          (concat (map shares (filter (\<lambda>e. 0 < Expense.amount e) expenses))))" for k
    by (simp add: owedAmounts_def)
  have "expectedBalance q expenses = claimedBalance q expenses" for q
    by (simp add: expectedBalance_def claimedBalance_def claimedPaid_def claimedOwed_def p o)
  then show "calculateBalances participants expenses =
           map (\<lambda>p. claimedBalance p expenses) participants"
    using calculateBalances_distinct[OF assms(1)] by simp
next
  fix p :: Participant
  assume n: "\<forall>e\<in>set expenses. payerId e \<noteq> Participant.id p \<and>
               (\<forall>share\<in>set (shares e). participantId share \<noteq> Participant.id p)"
  have a: "filter (\<lambda>e. 0 < Expense.amount e \<and> payerId e = Participant.id p) expenses = []"
    using n by (auto simp: filter_empty_conv)
  have b: "filter (\<lambda>share. participantId share = Participant.id p)
             (concat (map shares (filter (\<lambda>e. 0 < Expense.amount e) expenses))) = []"
    using n by (auto simp: filter_empty_conv)
  show "claimedBalance p expenses = \<lparr>participant = p, paid = 0, shouldPay = 0, diff = 0\<rparr>"
    by (simp add: claimedBalance_def claimedPaid_def claimedOwed_def a b)
qed

lemma dinner_balances:
  "calculateBalances [alice, bob, carol] [dinner] =
     [\<lparr>participant = alice, paid = num 3000, shouldPay = num 1000, diff = num 2000\<rparr>,
      \<lparr>participant = bob, paid = num 0, shouldPay = num 1000, diff = num (- 1000)\<rparr>,
      \<lparr>participant = carol, paid = num 0, shouldPay = num 1000, diff = num (- 1000)\<rparr>]"
  by (simp add: balance_eval example_defs dinner_def number_eval)

theorem calculateBalances_per_participant_witness:
  "distinct (map Participant.id [alice, bob, carol]) \<and>
   Expense.amount dinner \<noteq> NaN \<and>
   calculateBalances [alice, bob, carol] [dinner] =
     map (\<lambda>p. claimedBalance p [dinner]) [alice, bob, carol] \<and>
   calculateBalances [alice, bob, carol] [dinner] =
     [\<lparr>participant = alice, paid = num 3000, shouldPay = num 1000, diff = num 2000\<rparr>,
      \<lparr>participant = bob, paid = num 0, shouldPay = num 1000, diff = num (- 1000)\<rparr>,
      \<lparr>participant = carol, paid = num 0, shouldPay = num 1000, diff = num (- 1000)\<rparr>] \<and>
   claimedBalance carol [] = \<lparr>participant = carol, paid = 0, shouldPay = 0, diff = 0\<rparr>"
proof -
  have d: "distinct (map Participant.id [alice, bob, carol])"
    by (simp add: example_defs)
  have a: "\<forall>e\<in>set [dinner]. Expense.amount e \<noteq> NaN"
    by (simp add: dinner_def number_eval)
  have a0: "\<forall>e\<in>set []. Expense.amount e \<noteq> NaN" by simp
  have c: "carol \<in> set [alice, bob, carol]" by simp
  have n: "\<forall>e\<in>set []. payerId e \<noteq> Participant.id carol \<and>
               (\<forall>share\<in>set (shares e). participantId share \<noteq> Participant.id carol)" by simp
  note T = calculateBalances_per_participant[OF d a]
  note U = calculateBalances_per_participant[OF d a0, THEN conjunct2, THEN bspec, OF c, THEN mp, OF n]
  have a': "Expense.amount dinner \<noteq> NaN" using a by simp
  show ?thesis by (intro conjI d a' T[THEN conjunct1] dinner_balances U)
qed

text \<open>
  As the claim words it, C3 fails in two ways. The sums are not the sums of the amounts
  but what the code accumulates: of the expenses \<open>2^53, 1, 1\<close> paid by Alice, whose
  amounts sum to the whole number \<open>2^53 + 2\<close>, the \<open>paid\<close> of Alice is \<open>2^53\<close>, because
  adding \<open>1\<close> to \<open>2^53\<close> gives \<open>2^53\<close>; likewise the \<open>shouldPay\<close> of Bob. And an expense
  whose amount is \<open>NaN\<close> is not skipped by the guard \<open>amount <= 0\<close>, though its amount is
  not \<open>> 0\<close>: the payer's \<open>paid\<close> becomes \<open>NaN\<close>.
\<close>

theorem calculateBalances_sum_counterexample:
  "distinct (map Participant.id [alice, bob]) \<and>
   map paid (calculateBalances [alice, bob] largeExpenses) = [num (2 ^ 53), num 0] \<and>
   map shouldPay (calculateBalances [alice, bob] largeExpenses) = [num 0, num (2 ^ 53)] \<and>
   sum_list (map (\<lambda>e. val (Expense.amount e))
     (filter (\<lambda>e. 0 < Expense.amount e \<and> payerId e = ''a'') largeExpenses)) = 2 ^ 53 + 2 \<and>
   val (num (2 ^ 53)) = 2 ^ 53 \<and>
   paid (hd (calculateBalances [alice] [nanExpense])) = NaN \<and>
   \<not> 0 < Expense.amount nanExpense"
proof -
  have d: "distinct (map Participant.id [alice, bob])" by (simp add: example_defs)
  have p: "map paid (calculateBalances [alice, bob] largeExpenses) = [num (2 ^ 53), num 0]"
    "map shouldPay (calculateBalances [alice, bob] largeExpenses) = [num 0, num (2 ^ 53)]"
    by (simp_all add: balance_eval example_defs largeExpenses_def number_eval num_2_53_plus_1)
  have s: "sum_list (map (\<lambda>e. val (Expense.amount e))
     (filter (\<lambda>e. 0 < Expense.amount e \<and> payerId e = ''a'') largeExpenses)) = 2 ^ 53 + 2"
    "val (num (2 ^ 53)) = 2 ^ 53"
    by (simp_all add: largeExpenses_def number_eval num_representable representable_numeral)
  have a: "paid (hd (calculateBalances [alice] [nanExpense])) = NaN"
    "\<not> 0 < Expense.amount nanExpense"
    by (simp_all add: balance_eval example_defs nanExpense_def number_eval)
  show ?thesis using d p s a by simp
qed

subsection \<open>C6: the final rounding\<close>

lemma Math_round_nearest:
  "\<exists>n::int. Math_round (Fin x) = num (of_int n) \<and> isFinite (Math_round (Fin x)) \<and>
     val (Math_round (Fin x)) = of_int n \<and>
     valueOf x - 1 / 2 < of_int n \<and> of_int n \<le> valueOf x + 1 / 2"
proof -
  let ?n = "\<lfloor>valueOf x + 1 / 2\<rfloor>"
  have "of_int ?n \<le> valueOf x + 1 / 2" by (rule of_int_floor_le)
  moreover have "valueOf x + 1 / 2 < of_int ?n + 1" by linarith
  moreover have "representable (of_int ?n)" by (intro representable_round) simp
  ultimately show ?thesis by (intro exI[of _ ?n]) (auto simp: num_representable)
qed

lemma counted_amount:
  "counted e \<Longrightarrow> Expense.amount e = NaN \<or> Expense.amount e = PInf \<or>
     (\<exists>y. Expense.amount e = Fin y \<and> 0 < valueOf y)"
  by (cases "Expense.amount e") (auto simp: counted_def zero_Fin)

lemma foldl_counted_nonneg:
  assumes "a = NaN \<or> a = PInf \<or> (\<exists>y. a = Fin y \<and> 0 \<le> valueOf y)"
    and "\<forall>x\<in>set xs. x = NaN \<or> x = PInf \<or> (\<exists>y. x = Fin y \<and> 0 < valueOf y)"
  shows "foldl (+) a xs = NaN \<or> foldl (+) a xs = PInf \<or>
         (\<exists>y. foldl (+) a xs = Fin y \<and> 0 \<le> valueOf y)"
  using assms
proof (induction xs arbitrary: a)
  case Nil
  then show ?case by simp
next
  case (Cons x xs)
  have x: "x = NaN \<or> x = PInf \<or> (\<exists>y. x = Fin y \<and> 0 < valueOf y)" using Cons.prems(2) by simp
  have "a + x = NaN \<or> a + x = PInf \<or> (\<exists>y. a + x = Fin y \<and> 0 \<le> valueOf y)"
  proof (cases "\<exists>p q. a = Fin p \<and> x = Fin q")
    case True
    then obtain p q where pq: "a = Fin p" "x = Fin q" by blast
    then have "0 \<le> valueOf p + valueOf q" using Cons.prems(1) x by auto
    from num_nonneg[OF this] show ?thesis using pq by auto
  next
    case False
    then show ?thesis using Cons.prems(1) x by (cases a; cases x) auto
  qed
  from Cons.IH[OF this] Cons.prems(2) show ?case by simp
qed

lemma paidAmounts_nonneg:
  "sumNumbers (paidAmounts k es) = Fin x \<Longrightarrow> 0 \<le> valueOf x"
proof -
  assume eq: "sumNumbers (paidAmounts k es) = Fin x"
  have "\<forall>v\<in>set (paidAmounts k es). v = NaN \<or> v = PInf \<or> (\<exists>y. v = Fin y \<and> 0 < valueOf y)"
    by (auto simp: paidAmounts_def dest: counted_amount)
  from foldl_counted_nonneg[of 0, OF _ this] eq show ?thesis
    by (auto simp: sumNumbers_def zero_Fin)
qed

lemma Math_round_away_nonneg:
  "(\<And>x. v = Fin x \<Longrightarrow> 0 \<le> valueOf x) \<Longrightarrow> Math_round v = roundHalfAwayFromZero v"
  by (cases v) simp_all

lemma accumulate_paid_nonneg:
  assumes "i < length (ledger_values (accumulate ps es))"
    and "paid (ledger_values (accumulate ps es) ! i) = Fin x"
  shows "0 \<le> valueOf x"
proof -
  have len: "i < length (initLedger ps)"
    using assms(1) by (simp add: ledger_values_def accumulate_closed)
  obtain k h0 where kh: "initLedger ps ! i = (k, h0)" by (cases "initLedger ps ! i")
  then have "(k, h0) \<in> set (initLedger ps)" using len by (metis nth_mem)
  then have z: "paid h0 = 0" using initLedger_zero by blast
  have "paid (ledger_values (accumulate ps es) ! i) = sumNumbers (paidAmounts k es)"
    using len kh z by (simp add: ledger_values_def accumulate_closed sumNumbers_def)
  then show ?thesis using assms(2) paidAmounts_nonneg by simp
qed

text \<open>
  C6 (as amended). The final step of \<open>calculateBalances\<close> rounds each participant's
  accumulated \<open>paid\<close> and \<open>shouldPay\<close> with \<open>Math.round\<close> before computing
  \<open>diff = paid - shouldPay\<close>: a finite value \<open>x\<close> becomes the integer \<open>n\<close> with
  \<open>x - 1/2 < n \<le> x + 1/2\<close>, the nearest integer, a tie going up (towards \<open>+\<infinity>\<close>).
  The accumulated \<open>paid\<close> is never negative, so for \<open>paid\<close>, and for a \<open>shouldPay\<close> that
  is not negative, this is rounding with ties away from zero.
\<close>

theorem finalize_rounds_half_up:
  assumes "i < length (ledger_values (accumulate participants expenses))"
    and "entry = ledger_values (accumulate participants expenses) ! i"
    and "balance = calculateBalances participants expenses ! i"
  shows "participant balance = participant entry \<and>
         paid balance = Math_round (paid entry) \<and>
         shouldPay balance = Math_round (shouldPay entry) \<and>
         diff balance = paid balance - shouldPay balance \<and>
         (\<forall>x. paid entry = Fin x \<longrightarrow>
            (\<exists>n::int. paid balance = num (of_int n) \<and> isFinite (paid balance) \<and>
               val (paid balance) = of_int n \<and>
               valueOf x - 1 / 2 < of_int n \<and> of_int n \<le> valueOf x + 1 / 2)) \<and>
         (\<forall>x. shouldPay entry = Fin x \<longrightarrow>
            (\<exists>n::int. shouldPay balance = num (of_int n) \<and> isFinite (shouldPay balance) \<and>
               val (shouldPay balance) = of_int n \<and>
               valueOf x - 1 / 2 < of_int n \<and> of_int n \<le> valueOf x + 1 / 2)) \<and>
         paid balance = roundHalfAwayFromZero (paid entry) \<and>
         (\<forall>x. shouldPay entry = Fin x \<and> 0 \<le> valueOf x \<longrightarrow>
            shouldPay balance = roundHalfAwayFromZero (shouldPay entry))"
proof -
  have b: "balance = finalize entry"
    using assms by (simp add: calculateBalances_def)
  have 1: "participant balance = participant entry" "paid balance = Math_round (paid entry)"
    "shouldPay balance = Math_round (shouldPay entry)" "diff balance = paid balance - shouldPay balance"
    by (simp_all add: b finalize_def Let_def)
  have 2: "\<forall>x. paid entry = Fin x \<longrightarrow>
            (\<exists>n::int. paid balance = num (of_int n) \<and> isFinite (paid balance) \<and>
               val (paid balance) = of_int n \<and>
               valueOf x - 1 / 2 < of_int n \<and> of_int n \<le> valueOf x + 1 / 2)"
    using Math_round_nearest by (simp add: 1 del: Math_round.simps)
  have 3: "\<forall>x. shouldPay entry = Fin x \<longrightarrow>
            (\<exists>n::int. shouldPay balance = num (of_int n) \<and> isFinite (shouldPay balance) \<and>
               val (shouldPay balance) = of_int n \<and>
               valueOf x - 1 / 2 < of_int n \<and> of_int n \<le> valueOf x + 1 / 2)"
    using Math_round_nearest by (simp add: 1 del: Math_round.simps)
  have 4: "paid balance = roundHalfAwayFromZero (paid entry)"
    unfolding 1 using accumulate_paid_nonneg[OF assms(1)] assms(2)
    by (intro Math_round_away_nonneg) simp
  have 5: "\<forall>x. shouldPay entry = Fin x \<and> 0 \<le> valueOf x \<longrightarrow>
            shouldPay balance = roundHalfAwayFromZero (shouldPay entry)"
    by (auto simp: 1)
  show ?thesis using 1 2 3 4 5 by blast
qed

lemma refund_ledger:
  "ledger_values (accumulate [alice] [refund]) =
     [\<lparr>participant = alice, paid = num 1, shouldPay = num (- 5 / 2)\<rparr>]"
  by (simp add: balance_eval example_defs refund_def number_eval)

lemma refund_balances:
  "calculateBalances [alice] [refund] =
     [\<lparr>participant = alice, paid = num 1, shouldPay = num (- 2), diff = num 3\<rparr>]"
  by (simp add: balance_eval example_defs refund_def number_eval)

theorem finalize_rounds_half_up_witness:
  "(0::nat) < length (ledger_values (accumulate [alice] [refund])) \<and>
   paid (ledger_values (accumulate [alice] [refund]) ! 0) = num 1 \<and>
   shouldPay (ledger_values (accumulate [alice] [refund]) ! 0) = num (- 5 / 2) \<and>
   paid (calculateBalances [alice] [refund] ! 0) = num 1 \<and>
   shouldPay (calculateBalances [alice] [refund] ! 0) = num (- 2) \<and>
   diff (calculateBalances [alice] [refund] ! 0) =
     paid (calculateBalances [alice] [refund] ! 0) - shouldPay (calculateBalances [alice] [refund] ! 0)"
proof -
  have l: "(0::nat) < length (ledger_values (accumulate [alice] [refund]))"
    by (simp add: refund_ledger)
  note T = finalize_rounds_half_up[OF l refl refl]
  have a: "paid (ledger_values (accumulate [alice] [refund]) ! 0) = num 1"
    "shouldPay (ledger_values (accumulate [alice] [refund]) ! 0) = num (- 5 / 2)"
    by (simp_all add: refund_ledger)
  have b: "paid (calculateBalances [alice] [refund] ! 0) = num 1"
    "shouldPay (calculateBalances [alice] [refund] ! 0) = num (- 2)"
    by (simp_all add: refund_balances)
  from T have d: "diff (calculateBalances [alice] [refund] ! 0) =
     paid (calculateBalances [alice] [refund] ! 0) - shouldPay (calculateBalances [alice] [refund] ! 0)"
    by blast
  show ?thesis by (intro conjI l a b d)
qed

text \<open>
  As the claim words it (ties away from zero), C6 fails for a negative tie: an accumulated
  \<open>shouldPay\<close> of \<open>-2.5\<close> is rounded to \<open>-2\<close>, not to \<open>-3\<close>.
\<close>

theorem finalize_away_from_zero_counterexample:
  "shouldPay (hd (ledger_values (accumulate [alice] [refund]))) = num (- 5 / 2) \<and>
   shouldPay (hd (calculateBalances [alice] [refund])) = num (- 2) \<and>
   roundHalfAwayFromZero (shouldPay (hd (ledger_values (accumulate [alice] [refund])))) = num (- 3) \<and>
   shouldPay (hd (calculateBalances [alice] [refund]))
     \<noteq> roundHalfAwayFromZero (shouldPay (hd (ledger_values (accumulate [alice] [refund]))))"
proof -
  have r: "representable (- 5 / 2)"
    using representable_numeral_half[of "num.Bit1 (num.Bit0 num.One)"] by simp
  have v: "roundHalfAwayFromZero (num (- 5 / 2)) = num (- 3)"
    using r by (simp add: num_representable number_eval)
  show ?thesis using v by (simp add: refund_ledger refund_balances number_eval)
qed

subsection \<open>C8: what the calculator ignores\<close>

lemma applyExpense_skipped: "Expense.amount e \<le> 0 \<Longrightarrow> applyExpense l e = l"
  by (simp add: applyExpense_def)

lemma applyExpenses_filter:
  "foldl applyExpense l es = foldl applyExpense l (filter (\<lambda>e. \<not> Expense.amount e \<le> 0) es)"
  by (induction es arbitrary: l) (simp_all add: applyExpense_skipped)

lemma paidAmounts_known_payers:
  assumes "k \<in> ids"
  shows "paidAmounts k (filter (\<lambda>e. payerId e \<in> ids) es) = paidAmounts k es"
proof -
  have "filter (\<lambda>e. counted e \<and> payerId e = k) (filter (\<lambda>e. payerId e \<in> ids) es) =
        filter (\<lambda>e. counted e \<and> payerId e = k) es"
    using assms by (induction es) auto
  then show ?thesis by (simp add: paidAmounts_def)
qed

lemma paidAmounts_strip:
  "paidAmounts k (map (\<lambda>e. e\<lparr>shares := f (shares e)\<rparr>) es) = paidAmounts k es"
  by (induction es) (simp_all add: paidAmounts_def counted_def)

lemma owedAmounts_strip:
  assumes "k \<in> ids"
  shows "owedAmounts k (map (\<lambda>e. e\<lparr>shares := filter (\<lambda>share. participantId share \<in> ids) (shares e)\<rparr>) es)
         = owedAmounts k es"
proof -
  have one: "filter (\<lambda>x. participantId x \<in> ids \<and> participantId x = k) shs =
             filter (\<lambda>share. participantId share = k) shs" for shs :: "ExpenseShare list"
    using assms by (induction shs) auto
  have "filter (\<lambda>share. participantId share = k)
          (concat (map shares (filter counted
             (map (\<lambda>e. e\<lparr>shares := filter (\<lambda>share. participantId share \<in> ids) (shares e)\<rparr>) es)))) =
        filter (\<lambda>share. participantId share = k) (concat (map shares (filter counted es)))"
    by (induction es) (simp_all add: counted_def one)
  then show ?thesis by (simp add: owedAmounts_def)
qed

lemma nonfinite_rounds_to_zero: "\<not> isFinite d \<Longrightarrow> roundToUnit d unit = 0"
  by (simp add: roundToUnit_def)

lemma roundToUnit_of_zero: "isFinite u \<Longrightarrow> 0 < u \<Longrightarrow> roundToUnit 0 u = 0"
proof -
  assume "isFinite u" "0 < u"
  then obtain a where a: "u = Fin a" "0 < valueOf a" by (auto simp: zero_less_iff)
  have q: "(0::number) / Fin a = 0" using a(2) by (simp add: zero_Fin num_zero_val)
  have "(0::number) * Fin a = 0" by (simp add: zero_Fin num_zero_val)
  then show ?thesis using a q by (simp add: roundToUnit_def)
qed

text \<open>
  C8. \<open>calculateBalances\<close> is a total function (no input makes it raise), and:
  removing every expense with \<open>amount \<le> 0\<close> changes nothing in its result; removing
  every expense whose \<open>payerId\<close> is no participant's id changes no \<open>paid\<close>; removing from
  every expense the shares whose \<open>participantId\<close> is no participant's id changes nothing
  (the other shares of the expense are still counted). In \<open>roundBalancesToUnit\<close> a
  non-finite \<open>diff\<close> is rounded to \<open>0\<close>, which for a finite positive unit is also the
  rounding of \<open>0\<close>, and the entry keeps \<open>roundedDiff = 0\<close> in the result.
\<close>

theorem calculateBalances_ignores:
  "calculateBalances participants expenses =
     calculateBalances participants (filter (\<lambda>e. \<not> Expense.amount e \<le> 0) expenses) \<and>
   map paid (calculateBalances participants expenses) =
     map paid (calculateBalances participants
       (filter (\<lambda>e. payerId e \<in> Participant.id ` set participants) expenses)) \<and>
   calculateBalances participants expenses =
     calculateBalances participants
       (map (\<lambda>e. e\<lparr>shares :=
               filter (\<lambda>share. participantId share \<in> Participant.id ` set participants)
                 (shares e)\<rparr>) expenses) \<and>
   (\<forall>j<length balances. \<not> isFinite (diff (balances ! j)) \<longrightarrow>
      roundToUnit (diff (balances ! j)) unit = 0 \<and>
      roundedDiff (roundEach balances unit ! j) = 0 \<and>
      (\<forall>u. isFinite u \<and> 0 < u \<longrightarrow>
         roundToUnit (diff (balances ! j)) u = roundToUnit 0 u \<and>
         roundedDiff (roundBalancesToUnit balances u ! j) = 0))"
proof (intro conjI allI impI)
  show "calculateBalances participants expenses =
     calculateBalances participants (filter (\<lambda>e. \<not> Expense.amount e \<le> 0) expenses)"
    using applyExpenses_filter[of "initLedger participants" expenses]
    by (simp add: calculateBalances_def accumulate_def)
next
  show "map paid (calculateBalances participants expenses) =
     map paid (calculateBalances participants
       (filter (\<lambda>e. payerId e \<in> Participant.id ` set participants) expenses))"
    by (auto simp: calculateBalances_closed paidAmounts_known_payers dest: initLedger_key)
next
  show "calculateBalances participants expenses =
     calculateBalances participants
       (map (\<lambda>e. e\<lparr>shares :=
               filter (\<lambda>share. participantId share \<in> Participant.id ` set participants)
                 (shares e)\<rparr>) expenses)"
    by (auto simp: calculateBalances_closed paidAmounts_strip owedAmounts_strip dest: initLedger_key)
next
  fix j assume j: "j < length balances" and nf: "\<not> isFinite (diff (balances ! j))"
  show "roundToUnit (diff (balances ! j)) unit = 0"
    using nf by (rule nonfinite_rounds_to_zero)
  show "roundedDiff (roundEach balances unit ! j) = 0"
    using j nf by (simp add: nth_roundEach nonfinite_rounds_to_zero)
  fix u :: number assume u: "isFinite u \<and> 0 < u"
  show "roundToUnit (diff (balances ! j)) u = roundToUnit 0 u"
    using nf u by (simp add: nonfinite_rounds_to_zero roundToUnit_of_zero)
  have "roundedDiff (roundEach balances u ! j) = 0"
    using j nf by (simp add: nth_roundEach nonfinite_rounds_to_zero)
  then show "roundedDiff (roundBalancesToUnit balances u ! j) = 0"
    using u j by (intro zero_entry_not_adjusted) simp_all
qed

lemma stray_balances:
  "calculateBalances [alice, bob, carol] strayExpenses =
     [\<lparr>participant = alice, paid = num 3000, shouldPay = num 1000, diff = num 2000\<rparr>,
      \<lparr>participant = bob, paid = num 0, shouldPay = num 1400, diff = num (- 1400)\<rparr>,
      \<lparr>participant = carol, paid = num 0, shouldPay = num 1000, diff = num (- 1000)\<rparr>]"
  by (simp add: balance_eval example_defs dinner_def strayExpenses_def number_eval)

lemma nonFinite_result:
  "map roundedDiff (roundBalancesToUnit nonFiniteBalances (num 100)) = [num 0, num 100, num (- 100)]"
  by (simp add: example_defs nonFiniteBalances_def number_eval rounding_eval upt_conv_Cons)

theorem calculateBalances_ignores_witness:
  "calculateBalances [alice, bob, carol] strayExpenses =
     calculateBalances [alice, bob, carol]
       (filter (\<lambda>e. \<not> Expense.amount e \<le> 0) strayExpenses) \<and>
   map paid (calculateBalances [alice, bob, carol] strayExpenses) =
     map paid (calculateBalances [alice, bob, carol]
       (filter (\<lambda>e. payerId e \<in> Participant.id ` set [alice, bob, carol]) strayExpenses)) \<and>
   calculateBalances [alice, bob, carol] strayExpenses =
     calculateBalances [alice, bob, carol]
       (map (\<lambda>e. e\<lparr>shares :=
               filter (\<lambda>share. participantId share \<in> Participant.id ` set [alice, bob, carol])
                 (shares e)\<rparr>) strayExpenses) \<and>
   calculateBalances [alice, bob, carol] strayExpenses =
     [\<lparr>participant = alice, paid = num 3000, shouldPay = num 1000, diff = num 2000\<rparr>,
      \<lparr>participant = bob, paid = num 0, shouldPay = num 1400, diff = num (- 1400)\<rparr>,
      \<lparr>participant = carol, paid = num 0, shouldPay = num 1000, diff = num (- 1000)\<rparr>] \<and>
   (0::nat) < length nonFiniteBalances \<and>
   \<not> isFinite (diff (nonFiniteBalances ! 0)) \<and>
   roundToUnit (diff (nonFiniteBalances ! 0)) (num 100) = 0 \<and>
   (isFinite (num 100) \<and> 0 < num 100) \<and>
   roundedDiff (roundBalancesToUnit nonFiniteBalances (num 100) ! 0) = 0 \<and>
   map roundedDiff (roundBalancesToUnit nonFiniteBalances (num 100)) =
     [num 0, num 100, num (- 100)]"
proof -
  note T = calculateBalances_ignores[of "[alice, bob, carol]" strayExpenses nonFiniteBalances "num 100"]
  have l: "(0::nat) < length nonFiniteBalances" by (simp add: nonFiniteBalances_def)
  have nf: "\<not> isFinite (diff (nonFiniteBalances ! 0))"
    by (simp add: nonFiniteBalances_def balanceOf_def number_eval)
  have u: "isFinite (num 100) \<and> 0 < num 100" by (simp add: number_eval)
  note D = T[THEN conjunct2, THEN conjunct2, THEN conjunct2, THEN spec, THEN mp, OF l, THEN mp, OF nf]
  note E = D[THEN conjunct2, THEN conjunct2, THEN spec, THEN mp, OF u]
  show ?thesis
    by (intro conjI T[THEN conjunct1] T[THEN conjunct2, THEN conjunct1]
        T[THEN conjunct2, THEN conjunct2, THEN conjunct1] stray_balances l nf
        D[THEN conjunct1] u[THEN conjunct1] u[THEN conjunct2] E[THEN conjunct2] nonFinite_result)
qed

section \<open>The settlement planner: proofs\<close>

subsection \<open>One pass of the loop, on the pending lists\<close>

lemma settleLoop_continue: "loopCondition s \<Longrightarrow> settleLoop s = settleLoop (loopBody s)"
  by (subst settleLoop.simps) simp

lemma settleLoop_stop: "\<not> loopCondition s \<Longrightarrow> settleLoop s = Some s"
  by (subst settleLoop.simps) simp

lemma loopCondition_pending:
  "loopCondition s \<longleftrightarrow> pendingDebtors s \<noteq> [] \<and> pendingCreditors s \<noteq> []"
  by (auto simp: loopCondition_def pendingDebtors_def pendingCreditors_def)

lemma drop_head:
  "drop i xs = y # ys \<Longrightarrow> i < length xs \<and> xs ! i = y \<and> drop (Suc i) xs = ys"
proof -
  assume a: "drop i xs = y # ys"
  then have i: "i < length xs" by (metis drop_all list.distinct(1) not_le)
  then have "xs ! i # drop (Suc i) xs = y # ys" using a by (simp add: Cons_nth_drop_Suc)
  then show ?thesis using i by simp
qed

lemma drop_update_here: "i < length xs \<Longrightarrow> drop i (xs[i := y]) = y # drop (Suc i) xs"
  by (metis Cons_nth_drop_Suc drop_update_cancel length_list_update lessI nth_list_update_eq)

lemma loopBody_pending:
  assumes d: "pendingDebtors s = d # ds" and c: "pendingCreditors s = c # cs"
  defines "a \<equiv> Math_min (Pending.amount d) (Pending.amount c)"
  shows "pendingDebtors (loopBody s) =
           (if strictEquals (Pending.amount d - a) 0 then ds
            else d\<lparr>Pending.amount := Pending.amount d - a\<rparr> # ds)"
    and "pendingCreditors (loopBody s) =
           (if strictEquals (Pending.amount c - a) 0 then cs
            else c\<lparr>Pending.amount := Pending.amount c - a\<rparr> # cs)"
    and "settlements (loopBody s) =
           settlements s @
             (if a > 0 then [\<lparr>from = Pending.id d, to = Pending.id c, amount = a\<rparr>] else [])"
proof -
  from drop_head[OF d[unfolded pendingDebtors_def]]
  have di: "debtorIndex s < length (debtors s)" "debtors s ! debtorIndex s = d"
    "drop (Suc (debtorIndex s)) (debtors s) = ds" by simp_all
  from drop_head[OF c[unfolded pendingCreditors_def]]
  have ci: "creditorIndex s < length (creditors s)" "creditors s ! creditorIndex s = c"
    "drop (Suc (creditorIndex s)) (creditors s) = cs" by simp_all
  show "pendingDebtors (loopBody s) =
           (if strictEquals (Pending.amount d - a) 0 then ds
            else d\<lparr>Pending.amount := Pending.amount d - a\<rparr> # ds)"
    using di ci by (simp add: pendingDebtors_def loopBody_def Let_def a_def drop_update_here)
  show "pendingCreditors (loopBody s) =
           (if strictEquals (Pending.amount c - a) 0 then cs
            else c\<lparr>Pending.amount := Pending.amount c - a\<rparr> # cs)"
    using di ci by (simp add: pendingCreditors_def loopBody_def Let_def a_def drop_update_here)
  show "settlements (loopBody s) =
           settlements s @
             (if a > 0 then [\<lparr>from = Pending.id d, to = Pending.id c, amount = a\<rparr>] else [])"
    using di ci by (simp add: loopBody_def Let_def a_def)
qed

lemma loopBody_lengths [simp]:
  "length (debtors (loopBody s)) = length (debtors s)"
  "length (creditors (loopBody s)) = length (creditors s)"
  by (simp_all add: loopBody_def Let_def)

lemma loopBody_index_bounds:
  "loopCondition s \<Longrightarrow> debtorIndex (loopBody s) \<le> length (debtors s) \<and>
     creditorIndex (loopBody s) \<le> length (creditors s)"
  by (simp add: loopBody_def Let_def loopCondition_def)

subsection \<open>Runs that never end\<close>

lemma Math_min_NaN: "x = NaN \<or> y = NaN \<Longrightarrow> Math_min x y = NaN"
  by (auto simp: Math_min_def)

lemma stuck_step: "stuck s \<Longrightarrow> stuck (loopBody s)"
proof -
  assume "stuck s"
  then obtain d ds c cs where p: "pendingDebtors s = d # ds" "pendingCreditors s = c # cs"
    and n: "Pending.amount d = NaN \<or> Pending.amount c = NaN"
    by (auto simp: stuck_def)
  have m: "Math_min (Pending.amount d) (Pending.amount c) = NaN" using n by (rule Math_min_NaN)
  show "stuck (loopBody s)"
    unfolding stuck_def
    using loopBody_pending(1,2)[OF p] m
    by (simp add: strictEquals_def)
qed

lemma stuck_condition: "stuck s \<Longrightarrow> loopCondition s"
  by (auto simp: stuck_def loopCondition_pending)

lemma returns_not_stuck: "settleLoop s = Some s' \<Longrightarrow> \<not> stuck s"
proof (induction rule: settleLoop.raw_induct[rotated 1, consumes 1])
  case (1 loop s s')
  show ?case
  proof
    assume st: "stuck s"
    then have "loop (loopBody s) = Some s'" using 1(2) stuck_condition by simp
    then have "\<not> stuck (loopBody s)" by (rule 1(1))
    then show False using stuck_step[OF st] by simp
  qed
qed

lemma stuck_diverges: "stuck s \<Longrightarrow> settleLoop s = None"
  using returns_not_stuck by (cases "settleLoop s") auto

lemma no_move_NaN:
  "\<not> strictEquals (x - Math_min x y) 0 \<Longrightarrow> \<not> strictEquals (y - Math_min x y) 0 \<Longrightarrow>
   x - Math_min x y = NaN \<or> y - Math_min x y = NaN"
  by (cases x; cases y) (auto simp: Math_min_def strictEquals_zero num_zero split: if_splits)

subsection \<open>The loop computes the recursion\<close>

lemma settleLoop_greedy_None:
  "greedy (pendingDebtors s) (pendingCreditors s) = None \<Longrightarrow> settleLoop s = None"
proof (induction "pendingDebtors s" "pendingCreditors s" arbitrary: s rule: greedy.induct)
  case (1 cs)
  then show ?case by simp
next
  case (2 d ds)
  then show ?case by (metis greedy.simps(2) option.distinct(1))
next
  case (3 d ds c cs)
  let ?a = "Math_min (Pending.amount d) (Pending.amount c)"
  let ?d' = "Pending.amount d - ?a"
  let ?c' = "Pending.amount c - ?a"
  have p: "pendingDebtors s = d # ds" "pendingCreditors s = c # cs"
    using 3(2,3) by simp_all
  have cond: "loopCondition s" using p by (simp add: loopCondition_pending)
  note B = loopBody_pending[OF p]
  show ?case
  proof (cases "strictEquals ?d' 0 \<or> strictEquals ?c' 0")
    case True
    have "greedy (pendingDebtors (loopBody s)) (pendingCreditors (loopBody s)) = None"
      using 3(4) True unfolding p[symmetric] B(1,2)
      by (simp add: p Let_def split: if_splits)
    from 3(1)[OF refl refl refl True _ _ this]
    have "settleLoop (loopBody s) = None" using B(1,2) by simp
    then show ?thesis using cond by (simp add: settleLoop_continue)
  next
    case False
    then have "?d' = NaN \<or> ?c' = NaN" using no_move_NaN by blast
    then have "stuck (loopBody s)" using B(1,2) False by (auto simp: stuck_def)
    then show ?thesis using cond by (simp add: settleLoop_continue stuck_diverges)
  qed
qed

lemma settleLoop_greedy_Some:
  "greedy (pendingDebtors s) (pendingCreditors s) = Some (es, dl, cl) \<Longrightarrow>
   debtorIndex s \<le> length (debtors s) \<Longrightarrow> creditorIndex s \<le> length (creditors s) \<Longrightarrow>
   \<exists>s'. settleLoop s = Some s' \<and> settlements s' = settlements s @ es \<and>
        pendingDebtors s' = dl \<and> pendingCreditors s' = cl \<and>
        debtorIndex s' \<le> length (debtors s') \<and> creditorIndex s' \<le> length (creditors s')"
proof (induction "pendingDebtors s" "pendingCreditors s" arbitrary: s es rule: greedy.induct)
  case (1 s es)
  then have "\<not> loopCondition s" by (simp add: loopCondition_pending)
  then have "settleLoop s = Some s" by (rule settleLoop_stop)
  moreover have "es = [] \<and> dl = [] \<and> cl = pendingCreditors s"
    using 1 by (metis greedy.simps(1) option.inject prod.inject)
  ultimately show ?case using 1 by auto
next
  case (2 d ds s es)
  then have "\<not> loopCondition s" by (simp add: loopCondition_pending)
  then have "settleLoop s = Some s" by (rule settleLoop_stop)
  moreover have "es = [] \<and> dl = pendingDebtors s \<and> cl = []"
    using 2 by (metis greedy.simps(2) option.inject prod.inject)
  ultimately show ?case using 2 by auto
next
  case (3 d ds c cs s es)
  let ?a = "Math_min (Pending.amount d) (Pending.amount c)"
  let ?d' = "Pending.amount d - ?a"
  let ?c' = "Pending.amount c - ?a"
  let ?e = "if ?a > 0 then [\<lparr>from = Pending.id d, to = Pending.id c, amount = ?a\<rparr>] else []"
  have p: "pendingDebtors s = d # ds" "pendingCreditors s = c # cs"
    using 3(2,3) by simp_all
  have cond: "loopCondition s" using p by (simp add: loopCondition_pending)
  note B = loopBody_pending[OF p]
  have g: "greedy (d # ds) (c # cs) = Some (es, dl, cl)" using 3(4) p by simp
  have move: "strictEquals ?d' 0 \<or> strictEquals ?c' 0"
    using g by (auto simp: Let_def split: if_splits)
  from g move obtain es' where rec: "greedy (pendingDebtors (loopBody s)) (pendingCreditors (loopBody s)) = Some (es', dl, cl)"
    and es: "es = ?e @ es'"
    unfolding B(1,2) by (auto simp: Let_def split: if_splits)
  have bounds: "debtorIndex (loopBody s) \<le> length (debtors (loopBody s))"
    "creditorIndex (loopBody s) \<le> length (creditors (loopBody s))"
    using loopBody_index_bounds[OF cond] by simp_all
  from 3(1)[OF refl refl refl move _ _ rec bounds]
  obtain s' where s': "settleLoop (loopBody s) = Some s'"
    "settlements s' = settlements (loopBody s) @ es'"
    "pendingDebtors s' = dl" "pendingCreditors s' = cl"
    "debtorIndex s' \<le> length (debtors s')" "creditorIndex s' \<le> length (creditors s')"
    using B(1,2) by auto
  have "settleLoop s = Some s'" using cond s'(1) by (simp add: settleLoop_continue)
  moreover have "settlements s' = settlements s @ es" using s'(2) B(3) es by simp
  ultimately show ?case using s' by blast
qed

subsection \<open>The arrays built from the balances\<close>

lemma classify_fold:
  "foldl classify (ds, cs) balances = (ds @ debtorsOf balances, cs @ creditorsOf balances)"
proof (induction balances arbitrary: ds cs)
  case Nil
  then show ?case by (simp add: debtorsOf_def creditorsOf_def)
next
  case (Cons b balances)
  have step: "classify (ds, cs) b = (ds @ debtorsOf [b], cs @ creditorsOf [b])"
    using number_sign_exclusive[of "roundedDiff b"]
    by (auto simp: classify_def debtorsOf_def creditorsOf_def)
  have split: "debtorsOf (b # balances) = debtorsOf [b] @ debtorsOf balances"
    "creditorsOf (b # balances) = creditorsOf [b] @ creditorsOf balances"
    by (simp_all add: debtorsOf_def creditorsOf_def)
  show ?case by (simp only: foldl_Cons step Cons.IH split append_assoc)
qed

lemma initialState_eq:
  "initialState balances =
     \<lparr>debtors = debtorsOf balances, creditors = creditorsOf balances, settlements = [],
      debtorIndex = 0, creditorIndex = 0\<rparr>"
  using classify_fold[of "[]" "[]" balances] by (simp add: initialState_def)

lemma initialState_pending [simp]:
  "pendingDebtors (initialState balances) = debtorsOf balances"
  "pendingCreditors (initialState balances) = creditorsOf balances"
  by (simp_all add: initialState_eq pendingDebtors_def pendingCreditors_def)

lemma exhausted_iff:
  "debtorIndex s \<le> length (debtors s) \<Longrightarrow>
     (debtorIndex s = length (debtors s)) = (pendingDebtors s = [])"
  "creditorIndex s \<le> length (creditors s) \<Longrightarrow>
     (creditorIndex s = length (creditors s)) = (pendingCreditors s = [])"
  by (auto simp: pendingDebtors_def pendingCreditors_def)

lemma settleLoop_initial_Some:
  assumes "greedy (debtorsOf balances) (creditorsOf balances) = Some (es, dl, cl)"
  shows "\<exists>s'. settleLoop (initialState balances) = Some s' \<and> settlements s' = es \<and>
          buildSettlementPlan balances = Some es \<and>
          (debtorIndex s' = length (debtors s')) = (dl = []) \<and>
          (creditorIndex s' = length (creditors s')) = (cl = [])"
proof -
  have g: "greedy (pendingDebtors (initialState balances)) (pendingCreditors (initialState balances))
           = Some (es, dl, cl)" using assms by simp
  have b: "debtorIndex (initialState balances) \<le> length (debtors (initialState balances))"
    "creditorIndex (initialState balances) \<le> length (creditors (initialState balances))"
    by (simp_all add: initialState_eq)
  from settleLoop_greedy_Some[OF g b] obtain s' where
    s': "settleLoop (initialState balances) = Some s'"
      "settlements s' = settlements (initialState balances) @ es"
      "pendingDebtors s' = dl" "pendingCreditors s' = cl"
      "debtorIndex s' \<le> length (debtors s')" "creditorIndex s' \<le> length (creditors s')"
    by blast
  have "settlements s' = es" using s'(2) by (simp add: initialState_eq)
  moreover have "buildSettlementPlan balances = Some es"
    using s'(1) \<open>settlements s' = es\<close> by (simp add: buildSettlementPlan_def)
  ultimately show ?thesis using s' exhausted_iff by blast
qed

lemma buildSettlementPlan_greedy:
  "buildSettlementPlan balances = map_option fst (greedy (debtorsOf balances) (creditorsOf balances))"
proof (cases "greedy (debtorsOf balances) (creditorsOf balances)")
  case None
  then have "settleLoop (initialState balances) = None"
    using settleLoop_greedy_None[of "initialState balances"] by simp
  then show ?thesis using None by (simp add: buildSettlementPlan_def)
next
  case (Some r)
  obtain es dl cl where r: "r = (es, dl, cl)" by (cases r)
  from settleLoop_initial_Some[OF Some[unfolded r]] show ?thesis using Some r by auto
qed

lemma debtorsOf_positive: "x \<in> set (debtorsOf balances) \<Longrightarrow> 0 < Pending.amount x"
proof -
  have "v < 0 \<Longrightarrow> 0 < Math_abs v" for v :: number
  proof (cases v)
    case (Fin a)
    assume "v < 0"
    then have "valueOf a < 0" using Fin by (simp add: less_zero_iff)
    then show ?thesis using Fin by (simp add: Math_abs_def num_representable zero_Fin)
  qed (simp_all add: Math_abs_def zero_Fin)
  then show "x \<in> set (debtorsOf balances) \<Longrightarrow> 0 < Pending.amount x"
    by (auto simp: debtorsOf_def)
qed

lemma creditorsOf_positive: "x \<in> set (creditorsOf balances) \<Longrightarrow> 0 < Pending.amount x"
  by (auto simp: creditorsOf_def)

lemma length_debtorsOf:
  "length (debtorsOf balances) = length (filter (\<lambda>b. roundedDiff b < 0) balances)"
  by (simp add: debtorsOf_def)

lemma length_creditorsOf:
  "length (creditorsOf balances) = length (filter (\<lambda>b. 0 < roundedDiff b) balances)"
  by (simp add: creditorsOf_def)

subsection \<open>Properties of the recursion\<close>

lemma greedy_step:
  assumes "greedy (d # ds) (c # cs) = Some (es, dl, cl)"
  defines "a \<equiv> Math_min (Pending.amount d) (Pending.amount c)"
  defines "ds' \<equiv> (if strictEquals (Pending.amount d - a) 0 then ds
                    else d\<lparr>Pending.amount := Pending.amount d - a\<rparr> # ds)"
  defines "cs' \<equiv> (if strictEquals (Pending.amount c - a) 0 then cs
                    else c\<lparr>Pending.amount := Pending.amount c - a\<rparr> # cs)"
  shows "strictEquals (Pending.amount d - a) 0 \<or> strictEquals (Pending.amount c - a) 0"
    and "\<exists>es'. greedy ds' cs' = Some (es', dl, cl) \<and>
           es = (if a > 0 then [\<lparr>from = Pending.id d, to = Pending.id c, amount = a\<rparr>] else []) @ es'"
proof -
  show m: "strictEquals (Pending.amount d - a) 0 \<or> strictEquals (Pending.amount c - a) 0"
    using assms(1) unfolding a_def by (auto simp: Let_def split: if_splits)
  show "\<exists>es'. greedy ds' cs' = Some (es', dl, cl) \<and>
           es = (if a > 0 then [\<lparr>from = Pending.id d, to = Pending.id c, amount = a\<rparr>] else []) @ es'"
    using assms(1) m unfolding a_def ds'_def cs'_def
    by (auto simp: Let_def split: if_splits)
qed

lemma greedy_exit: "greedy ds cs = Some (es, dl, cl) \<Longrightarrow> dl = [] \<or> cl = []"
proof (induction ds cs arbitrary: es rule: greedy.induct)
  case (3 d ds c cs)
  from greedy_step[OF 3(2)] obtain es' where
    m: "strictEquals (Pending.amount d - Math_min (Pending.amount d) (Pending.amount c)) 0 \<or>
        strictEquals (Pending.amount c - Math_min (Pending.amount d) (Pending.amount c)) 0"
    and r: "greedy (if strictEquals (Pending.amount d - Math_min (Pending.amount d) (Pending.amount c)) 0 then ds
                    else d\<lparr>Pending.amount := Pending.amount d - Math_min (Pending.amount d) (Pending.amount c)\<rparr> # ds)
                   (if strictEquals (Pending.amount c - Math_min (Pending.amount d) (Pending.amount c)) 0 then cs
                    else c\<lparr>Pending.amount := Pending.amount c - Math_min (Pending.amount d) (Pending.amount c)\<rparr> # cs)
            = Some (es', dl, cl)"
    by blast
  from 3(1)[OF refl refl refl m r] show ?case .
qed auto

lemma positive_cases: "(0::number) < x \<Longrightarrow> x = PInf \<or> (\<exists>r. x = Fin r \<and> 0 < valueOf r)"
  by (simp add: zero_less_iff)

text \<open>
  The difference of two doubles \<open>p \<ge> q \<ge> 0\<close> is rounded to a double between \<open>0\<close> and
  \<open>p\<close>: it is finite and not negative.
\<close>

lemma remainder:
  assumes "0 \<le> valueOf q" "valueOf q \<le> valueOf p"
  shows "\<exists>b. Fin p - Fin q = Fin b \<and> 0 \<le> valueOf b \<and> valueOf b \<le> valueOf p"
proof -
  have "\<bar>valueOf p - valueOf q\<bar> \<le> \<bar>valueOf p\<bar>" using assms by simp
  from num_bounded[OF this] obtain b where
    b: "num (valueOf p - valueOf q) = Fin b" "valueOf b = nearest (valueOf p - valueOf q)"
       "\<bar>valueOf b\<bar> \<le> \<bar>valueOf p\<bar>" by blast
  have "0 \<le> valueOf b" using assms b(2) nearest_nonneg[of "valueOf p - valueOf q"] by simp
  then show ?thesis using b assms by auto
qed

lemma remainder_sign:
  assumes "0 \<le> valueOf q" "valueOf q \<le> valueOf p"
  shows "isFinite (Fin p - Fin q)" "\<not> strictEquals (Fin p - Fin q) 0 \<Longrightarrow> 0 < Fin p - Fin q"
proof -
  from remainder[OF assms] obtain b where b: "Fin p - Fin q = Fin b" "0 \<le> valueOf b" by blast
  show "isFinite (Fin p - Fin q)" by (simp only: b isFinite.simps)
  assume "\<not> strictEquals (Fin p - Fin q) 0"
  then have "valueOf b \<noteq> 0" unfolding b by (simp add: strictEquals_zero eq_zero_iff)
  then show "0 < Fin p - Fin q" using b by (simp add: zero_less_iff)
qed

lemma transfer_moved:
  assumes "0 < x" "0 < y"
    and "strictEquals (x - Math_min x y) 0 \<or> strictEquals (y - Math_min x y) 0"
  shows "isFinite x \<or> isFinite y"
  using positive_cases[OF assms(1)] positive_cases[OF assms(2)] assms(3)
  by (auto simp: Math_min_def strictEquals_def)

lemma transfer_finite_facts:
  assumes px: "0 < x" and py: "0 < y" and fin: "isFinite x \<or> isFinite y"
  defines "a \<equiv> Math_min x y"
  shows "isFinite a \<and> 0 < a \<and>
    (strictEquals (x - a) 0 \<or> strictEquals (y - a) 0) \<and>
    (\<not> strictEquals (x - a) 0 \<longrightarrow> 0 < x - a) \<and> (\<not> strictEquals (y - a) 0 \<longrightarrow> 0 < y - a) \<and>
    (strictEquals (x - a) 0 \<longrightarrow> x - a = 0) \<and> (strictEquals (y - a) 0 \<longrightarrow> y - a = 0) \<and>
    (isFinite x \<longrightarrow> isFinite (x - a)) \<and> (isFinite y \<longrightarrow> isFinite (y - a))"
proof -
  consider (ff) p q where "x = Fin p" "y = Fin q" "0 < valueOf p" "0 < valueOf q"
    | (fi) p where "x = Fin p" "y = PInf" "0 < valueOf p"
    | (if') q where "x = PInf" "y = Fin q" "0 < valueOf q"
    using positive_cases[OF px] positive_cases[OF py] fin by auto
  then show ?thesis
  proof cases
    case ff
    show ?thesis
    proof (cases "valueOf p < valueOf q")
      case True
      then have a: "a = Fin p" using ff by (simp add: a_def Math_min_def)
      have le: "0 \<le> valueOf p" "valueOf p \<le> valueOf q" using ff True by simp_all
      show ?thesis
        using remainder_sign[OF le] ff by (simp add: a strictEquals_zero zero_less_iff num_zero)
    next
      case False
      then have a: "a = Fin q" using ff by (simp add: a_def Math_min_def)
      have le: "0 \<le> valueOf q" "valueOf q \<le> valueOf p" using ff False by simp_all
      show ?thesis
        using remainder_sign[OF le] ff by (simp add: a strictEquals_zero zero_less_iff num_zero)
    qed
  next
    case fi
    then have a: "a = Fin p" by (simp add: a_def Math_min_def)
    show ?thesis using fi by (simp add: a strictEquals_zero zero_less_iff num_zero)
  next
    case if'
    then have a: "a = Fin q" by (simp add: a_def Math_min_def)
    show ?thesis using if' by (simp add: a strictEquals_zero zero_less_iff num_zero)
  qed
qed

lemma transfer_moves:
  assumes "0 < x" "0 < y" "isFinite x \<or> isFinite y"
  shows "strictEquals (x - Math_min x y) 0 \<or> strictEquals (y - Math_min x y) 0"
  using transfer_finite_facts[OF assms] by blast

lemma transfer_facts:
  assumes "0 < x" "0 < y"
    and "strictEquals (x - Math_min x y) 0 \<or> strictEquals (y - Math_min x y) 0"
  defines "a \<equiv> Math_min x y"
  shows "isFinite a \<and> 0 < a \<and>
    (\<not> strictEquals (x - a) 0 \<longrightarrow> 0 < x - a) \<and> (\<not> strictEquals (y - a) 0 \<longrightarrow> 0 < y - a) \<and>
    (strictEquals (x - a) 0 \<longrightarrow> x - a = 0) \<and> (strictEquals (y - a) 0 \<longrightarrow> y - a = 0) \<and>
    (isFinite x \<longrightarrow> isFinite (x - a)) \<and> (isFinite y \<longrightarrow> isFinite (y - a))"
  using transfer_finite_facts[OF assms(1,2) transfer_moved[OF assms(1-3)]] unfolding a_def by blast

lemma greedy_returns:
  assumes "\<forall>x\<in>set ds. 0 < Pending.amount x" and "\<forall>x\<in>set cs. 0 < Pending.amount x"
    and "(\<forall>x\<in>set ds. isFinite (Pending.amount x)) \<or> (\<forall>x\<in>set cs. isFinite (Pending.amount x))"
  shows "\<exists>r. greedy ds cs = Some r"
  using assms
proof (induction ds cs rule: greedy.induct)
  case (3 d ds c cs)
  let ?x = "Pending.amount d"
  let ?y = "Pending.amount c"
  let ?a = "Math_min ?x ?y"
  let ?ds' = "if strictEquals (?x - ?a) 0 then ds else d\<lparr>Pending.amount := ?x - ?a\<rparr> # ds"
  let ?cs' = "if strictEquals (?y - ?a) 0 then cs else c\<lparr>Pending.amount := ?y - ?a\<rparr> # cs"
  have px: "0 < ?x" and py: "0 < ?y" using 3(2,3) by simp_all
  have "isFinite ?x \<or> isFinite ?y" using 3(4) by auto
  then have m: "strictEquals (?x - ?a) 0 \<or> strictEquals (?y - ?a) 0"
    using transfer_moves[OF px py] by blast
  note F = transfer_facts[OF px py m]
  have pd: "\<forall>x\<in>set ?ds'. 0 < Pending.amount x" using 3(2) F by auto
  have pc: "\<forall>x\<in>set ?cs'. 0 < Pending.amount x" using 3(3) F by auto
  have fin: "(\<forall>x\<in>set ?ds'. isFinite (Pending.amount x)) \<or> (\<forall>x\<in>set ?cs'. isFinite (Pending.amount x))"
    using 3(4) F by auto
  from 3(1)[OF refl refl refl m pd pc fin] obtain r where r: "greedy ?ds' ?cs' = Some r" by blast
  have "greedy (d # ds) (c # cs) \<noteq> None"
    using m r by (simp add: Let_def)
  then show ?case by blast
qed auto

lemma buildSettlementPlan_returns:
  assumes "(\<forall>b\<in>set balances. roundedDiff b \<noteq> NInf) \<or> (\<forall>b\<in>set balances. roundedDiff b \<noteq> PInf)"
  shows "\<exists>es. buildSettlementPlan balances = Some es"
proof -
  have nd: "\<forall>b\<in>set balances. roundedDiff b \<noteq> NInf \<Longrightarrow>
            \<forall>x\<in>set (debtorsOf balances). isFinite (Pending.amount x)"
  proof
    fix x assume a: "\<forall>b\<in>set balances. roundedDiff b \<noteq> NInf" and x: "x \<in> set (debtorsOf balances)"
    then obtain b where b: "b \<in> set balances" "roundedDiff b < 0" "Pending.amount x = Math_abs (roundedDiff b)"
      by (auto simp: debtorsOf_def)
    then show "isFinite (Pending.amount x)"
      using a by (cases "roundedDiff b") (auto simp: Math_abs_def num_representable)
  qed
  have nc: "\<forall>b\<in>set balances. roundedDiff b \<noteq> PInf \<Longrightarrow>
            \<forall>x\<in>set (creditorsOf balances). isFinite (Pending.amount x)"
  proof
    fix x assume a: "\<forall>b\<in>set balances. roundedDiff b \<noteq> PInf" and x: "x \<in> set (creditorsOf balances)"
    then obtain b where b: "b \<in> set balances" "0 < roundedDiff b" "Pending.amount x = roundedDiff b"
      by (auto simp: creditorsOf_def)
    then show "isFinite (Pending.amount x)"
      using a by (cases "roundedDiff b") auto
  qed
  have "(\<forall>x\<in>set (debtorsOf balances). isFinite (Pending.amount x)) \<or>
        (\<forall>x\<in>set (creditorsOf balances). isFinite (Pending.amount x))"
    using assms nd nc by blast
  from greedy_returns[OF _ _ this] obtain r where "greedy (debtorsOf balances) (creditorsOf balances) = Some r"
    using debtorsOf_positive creditorsOf_positive by blast
  then show ?thesis by (simp add: buildSettlementPlan_greedy)
qed

subsection \<open>Every pass of the loop\<close>

lemma settleLoop_passes: "settleLoop s = Some s' \<Longrightarrow> \<exists>n. passes n s = s'"
proof (induction rule: settleLoop.raw_induct[rotated 1, consumes 1])
  case (1 loop s s')
  show ?case
  proof (cases "loopCondition s")
    case True
    then have "loop (loopBody s) = Some s'" using 1(2) by simp
    then obtain n where "passes n (loopBody s) = s'" using 1(1) by blast
    then have "passes (Suc n) s = s'" using True by simp
    then show ?thesis by blast
  next
    case False
    then have "passes 0 s = s'" using 1(2) by simp
    then show ?thesis by blast
  qed
qed

lemma loopBody_ids:
  "loopCondition s \<Longrightarrow>
   map Pending.id (debtors (loopBody s)) = map Pending.id (debtors s) \<and>
   map Pending.id (creditors (loopBody s)) = map Pending.id (creditors s)"
  by (simp add: loopBody_def Let_def loopCondition_def map_update list_update_same_conv)

lemma loopBody_entries:
  "loopCondition s \<Longrightarrow> e \<in> set (settlements (loopBody s)) \<Longrightarrow>
   e \<in> set (settlements s) \<or>
   (0 < SettlementEntry.amount e \<and> from e \<in> set (map Pending.id (debtors s)) \<and>
    to e \<in> set (map Pending.id (creditors s)))"
  by (auto simp: loopBody_def Let_def loopCondition_def split: if_splits)

lemma entriesSound_step: "loopCondition s \<Longrightarrow> entriesSound s \<Longrightarrow> entriesSound (loopBody s)"
  unfolding entriesSound_def
  using loopBody_ids[of s] loopBody_entries[of s] by metis

lemma entriesSound_passes: "entriesSound s \<Longrightarrow> entriesSound (passes n s)"
  by (induction n arbitrary: s) (simp_all add: entriesSound_step)

lemma passes_ids:
  "map Pending.id (debtors (passes n s)) = map Pending.id (debtors s) \<and>
   map Pending.id (creditors (passes n s)) = map Pending.id (creditors s)"
  by (induction n arbitrary: s) (simp_all add: loopBody_ids)

lemma passes_lengths:
  "length (debtors (passes n s)) = length (debtors s) \<and>
   length (creditors (passes n s)) = length (creditors s)"
  by (induction n arbitrary: s) simp_all

lemma stuck_settlements: "stuck s \<Longrightarrow> settlements (loopBody s) = settlements s"
proof -
  assume "stuck s"
  then obtain d ds c cs where p: "pendingDebtors s = d # ds" "pendingCreditors s = c # cs"
    and n: "Pending.amount d = NaN \<or> Pending.amount c = NaN"
    by (auto simp: stuck_def)
  have "Math_min (Pending.amount d) (Pending.amount c) = NaN" using n by (rule Math_min_NaN)
  then show ?thesis using loopBody_pending(3)[OF p] by simp
qed

lemma withinBudget_step:
  assumes c: "loopCondition s" and w: "withinBudget s"
  shows "withinBudget (loopBody s)"
proof (cases "stuck s")
  case True
  then have "length (settlements s) + 1 \<le> length (debtors s) + length (creditors s)"
    using w by (auto simp: withinBudget_def stuck_def)
  then show ?thesis
    using True stuck_step[OF True] stuck_settlements[OF True] by (simp add: withinBudget_def)
next
  case False
  then have g: "\<forall>x\<in>set (pendingDebtors s). 0 < Pending.amount x"
    "\<forall>x\<in>set (pendingCreditors s). 0 < Pending.amount x"
    "length (settlements s) + max 1 (length (pendingDebtors s) + length (pendingCreditors s))
        \<le> length (debtors s) + length (creditors s)"
    using w by (auto simp: withinBudget_def)
  from c obtain d ds c' cs where p: "pendingDebtors s = d # ds" "pendingCreditors s = c' # cs"
    by (auto simp: loopCondition_pending neq_Nil_conv)
  let ?x = "Pending.amount d" and ?y = "Pending.amount c'"
  let ?a = "Math_min ?x ?y"
  note B = loopBody_pending[OF p]
  have px: "0 < ?x" and py: "0 < ?y" using g p by simp_all
  have len: "length (settlements (loopBody s)) \<le> length (settlements s) + 1"
    using B(3) by simp
  have budget: "length (settlements s) + (length ds + length cs + 2)
                  \<le> length (debtors s) + length (creditors s)"
    using g(3) p by simp
  show ?thesis
  proof (cases "strictEquals (?x - ?a) 0 \<or> strictEquals (?y - ?a) 0")
    case True
    note F = transfer_facts[OF px py True]
    have pd: "\<forall>x\<in>set (pendingDebtors (loopBody s)). 0 < Pending.amount x"
      using g(1) p F by (auto simp: B(1))
    have pc: "\<forall>x\<in>set (pendingCreditors (loopBody s)). 0 < Pending.amount x"
      using g(2) p F by (auto simp: B(2))
    have "length (pendingDebtors (loopBody s)) + length (pendingCreditors (loopBody s))
            \<le> length ds + length cs + 1"
      using True by (auto simp: B(1,2))
    then have "length (settlements (loopBody s))
             + max 1 (length (pendingDebtors (loopBody s)) + length (pendingCreditors (loopBody s)))
             \<le> length (debtors (loopBody s)) + length (creditors (loopBody s))"
      using len budget by simp
    then show ?thesis using pd pc by (simp add: withinBudget_def)
  next
    case False
    then have "?x - ?a = NaN \<or> ?y - ?a = NaN" using no_move_NaN by blast
    then have "stuck (loopBody s)" using B(1,2) False by (auto simp: stuck_def)
    moreover have "length (settlements (loopBody s)) + 1
             \<le> length (debtors (loopBody s)) + length (creditors (loopBody s))"
      using len budget by simp
    ultimately show ?thesis by (simp add: withinBudget_def)
  qed
qed

lemma withinBudget_passes: "withinBudget s \<Longrightarrow> withinBudget (passes n s)"
  by (induction n arbitrary: s) (simp_all add: withinBudget_step)

lemma withinBudget_bound:
  "withinBudget s \<Longrightarrow> length (settlements s) + 1 \<le> length (debtors s) + length (creditors s)"
  by (auto simp: withinBudget_def)

lemma initial_withinBudget:
  assumes "debtorsOf balances \<noteq> [] \<or> creditorsOf balances \<noteq> []"
  shows "withinBudget (initialState balances)"
proof -
  have arrays: "debtors (initialState balances) = debtorsOf balances"
    "creditors (initialState balances) = creditorsOf balances"
    "settlements (initialState balances) = []"
    by (simp_all add: initialState_eq)
  have "1 \<le> length (debtorsOf balances) + length (creditorsOf balances)"
    using assms by (cases "debtorsOf balances"; cases "creditorsOf balances") auto
  then have "length (settlements (initialState balances))
      + max 1 (length (pendingDebtors (initialState balances))
               + length (pendingCreditors (initialState balances)))
      \<le> length (debtors (initialState balances)) + length (creditors (initialState balances))"
    by (simp add: arrays)
  then show ?thesis
    unfolding withinBudget_def
    using debtorsOf_positive[of _ balances] creditorsOf_positive[of _ balances]
    by simp
qed

lemma initial_entriesSound: "entriesSound (initialState balances)"
  by (simp add: entriesSound_def initialState_eq)

subsection \<open>The plans of the examples\<close>

lemmas plan_eval = buildSettlementPlan_greedy debtorsOf_def creditorsOf_def roundedOf_def Let_def

lemma zeroSum_plan:
  "buildSettlementPlan zeroSumBalances =
     Some [\<lparr>from = ''b'', to = ''a'', amount = num 1000\<rparr>,
           \<lparr>from = ''c'', to = ''a'', amount = num 1000\<rparr>]"
  by (simp add: plan_eval zeroSumBalances_def example_defs number_eval)

lemma unequal_plan:
  "buildSettlementPlan unequalBalances =
     Some [\<lparr>from = ''b'', to = ''a'', amount = num 100\<rparr>,
           \<lparr>from = ''c'', to = ''a'', amount = num 100\<rparr>]"
  by (simp add: plan_eval unequalBalances_def example_defs number_eval)

lemma duplicate_plan:
  "buildSettlementPlan duplicateBalances = Some [\<lparr>from = ''a'', to = ''a'', amount = num 5\<rparr>]"
  by (simp add: plan_eval duplicateBalances_def example_defs number_eval)

text \<open>The loop of the source, run on the first example pass by pass.\<close>

lemma zeroSum_initial:
  "initialState zeroSumBalances =
     \<lparr>debtors = [\<lparr>id = ''b'', amount = num 1000\<rparr>, \<lparr>id = ''c'', amount = num 1000\<rparr>],
      creditors = [\<lparr>id = ''a'', amount = num 2000\<rparr>],
      settlements = [], debtorIndex = 0, creditorIndex = 0\<rparr>"
  by (simp add: initialState_def classify_def zeroSumBalances_def roundedOf_def example_defs
      number_eval)

lemma zeroSum_loop:
  "settleLoop (initialState zeroSumBalances) =
     Some \<lparr>debtors = [\<lparr>id = ''b'', amount = num 0\<rparr>, \<lparr>id = ''c'', amount = num 0\<rparr>],
           creditors = [\<lparr>id = ''a'', amount = num 0\<rparr>],
           settlements = [\<lparr>from = ''b'', to = ''a'', amount = num 1000\<rparr>,
                          \<lparr>from = ''c'', to = ''a'', amount = num 1000\<rparr>],
           debtorIndex = 2, creditorIndex = 1\<rparr>"
  by (simp add: zeroSum_initial settleLoop_continue settleLoop_stop loopCondition_def
      loopBody_def number_eval Let_def)

text \<open>
  An infinite credit and an infinite debt: the first pass emits an infinite transfer, both
  amounts become \<open>NaN\<close>, and the loop never returns.
\<close>

lemma infinite_plan: "buildSettlementPlan infiniteBalances = None"
  by (simp add: plan_eval infiniteBalances_def example_defs number_eval)

subsection \<open>C4: the number of entries\<close>

text \<open>
  C4. For every input balance list with at least one non-zero balance (positive or
  negative), the number of entries that \<open>buildSettlementPlan\<close> returns is at most the
  number of balances with a positive diff plus the number of balances with a negative
  diff, minus one; the same bound holds for the entries emitted after any number of
  passes of the loop, so also in a run that never ends. The function returns whenever no
  diff is \<open>-\<infinity>\<close> or no diff is \<open>+\<infinity>\<close>, so for all finite balances.
\<close>

theorem settlement_count_bound:
  "(\<forall>es. buildSettlementPlan balances = Some es \<longrightarrow>
      (\<exists>b\<in>set balances. 0 < roundedDiff b \<or> roundedDiff b < 0) \<longrightarrow>
      int (length es) \<le>
        int (length (filter (\<lambda>b. 0 < roundedDiff b) balances)) +
        int (length (filter (\<lambda>b. roundedDiff b < 0) balances)) - 1) \<and>
   (\<forall>n. (\<exists>b\<in>set balances. 0 < roundedDiff b \<or> roundedDiff b < 0) \<longrightarrow>
      int (length (settlements (passes n (initialState balances)))) \<le>
        int (length (filter (\<lambda>b. 0 < roundedDiff b) balances)) +
        int (length (filter (\<lambda>b. roundedDiff b < 0) balances)) - 1) \<and>
   ((\<forall>b\<in>set balances. roundedDiff b \<noteq> NInf) \<or> (\<forall>b\<in>set balances. roundedDiff b \<noteq> PInf) \<longrightarrow>
      (\<exists>es. buildSettlementPlan balances = Some es))"
proof -
  have every: "int (length (settlements (passes n (initialState balances)))) \<le>
        int (length (filter (\<lambda>b. 0 < roundedDiff b) balances)) +
        int (length (filter (\<lambda>b. roundedDiff b < 0) balances)) - 1"
    if nz: "\<exists>b\<in>set balances. 0 < roundedDiff b \<or> roundedDiff b < 0" for n
  proof -
    from nz have "debtorsOf balances \<noteq> [] \<or> creditorsOf balances \<noteq> []"
      by (auto simp: debtorsOf_def creditorsOf_def filter_empty_conv)
    then have "withinBudget (passes n (initialState balances))"
      by (intro withinBudget_passes initial_withinBudget)
    from withinBudget_bound[OF this]
    have "length (settlements (passes n (initialState balances))) + 1
            \<le> length (debtorsOf balances) + length (creditorsOf balances)"
      using passes_lengths[of n "initialState balances"] by (simp add: initialState_eq)
    then show ?thesis by (simp add: length_debtorsOf length_creditorsOf)
  qed
  have returned: "int (length es) \<le>
        int (length (filter (\<lambda>b. 0 < roundedDiff b) balances)) +
        int (length (filter (\<lambda>b. roundedDiff b < 0) balances)) - 1"
    if plan: "buildSettlementPlan balances = Some es"
      and nz: "\<exists>b\<in>set balances. 0 < roundedDiff b \<or> roundedDiff b < 0" for es
  proof -
    from plan obtain s' where "settleLoop (initialState balances) = Some s'" "settlements s' = es"
      by (auto simp: buildSettlementPlan_def)
    then obtain n where "settlements (passes n (initialState balances)) = es"
      using settleLoop_passes by blast
    then show ?thesis using every[OF nz, of n] by simp
  qed
  show ?thesis using every returned buildSettlementPlan_returns by blast
qed

theorem settlement_count_bound_witness:
  "(\<exists>b\<in>set zeroSumBalances. 0 < roundedDiff b \<or> roundedDiff b < 0) \<and>
   ((\<forall>b\<in>set zeroSumBalances. roundedDiff b \<noteq> NInf) \<or> (\<forall>b\<in>set zeroSumBalances. roundedDiff b \<noteq> PInf)) \<and>
   buildSettlementPlan zeroSumBalances =
     Some [\<lparr>from = ''b'', to = ''a'', amount = num 1000\<rparr>,
           \<lparr>from = ''c'', to = ''a'', amount = num 1000\<rparr>] \<and>
   int (length [\<lparr>from = ''b'', to = ''a'', amount = num 1000\<rparr>,
                \<lparr>from = ''c'', to = ''a'', amount = num 1000\<rparr>]) \<le>
     int (length (filter (\<lambda>b. 0 < roundedDiff b) zeroSumBalances)) +
     int (length (filter (\<lambda>b. roundedDiff b < 0) zeroSumBalances)) - 1"
proof -
  have nz: "\<exists>b\<in>set zeroSumBalances. 0 < roundedDiff b \<or> roundedDiff b < 0"
    by (simp add: zeroSumBalances_def roundedOf_def number_eval)
  have fin: "(\<forall>b\<in>set zeroSumBalances. roundedDiff b \<noteq> NInf) \<or>
             (\<forall>b\<in>set zeroSumBalances. roundedDiff b \<noteq> PInf)"
    by (simp add: zeroSumBalances_def roundedOf_def number_eval)
  note T = settlement_count_bound[of zeroSumBalances, THEN conjunct1, THEN spec, THEN mp,
      OF zeroSum_plan, THEN mp, OF nz]
  show ?thesis by (intro conjI nz fin zeroSum_plan T)
qed

subsection \<open>C5: the entries\<close>

text \<open>
  C5 (as amended). For every input balance list, every entry that \<open>buildSettlementPlan\<close>
  returns, and every entry emitted after any number of passes of its loop, has
  \<open>amount > 0\<close>; when the participant ids of the balances are distinct, no such entry
  has \<open>from\<close> equal to \<open>to\<close>. The function returns whenever no diff is \<open>-\<infinity>\<close> or no diff
  is \<open>+\<infinity>\<close>.
\<close>

theorem settlement_entries:
  "(\<forall>es. buildSettlementPlan balances = Some es \<longrightarrow>
      (\<forall>e\<in>set es. 0 < SettlementEntry.amount e \<and>
         (distinct (map (\<lambda>b. Participant.id (participant b)) balances) \<longrightarrow> from e \<noteq> to e))) \<and>
   (\<forall>n. \<forall>e\<in>set (settlements (passes n (initialState balances))).
      0 < SettlementEntry.amount e \<and>
      (distinct (map (\<lambda>b. Participant.id (participant b)) balances) \<longrightarrow> from e \<noteq> to e)) \<and>
   ((\<forall>b\<in>set balances. roundedDiff b \<noteq> NInf) \<or> (\<forall>b\<in>set balances. roundedDiff b \<noteq> PInf) \<longrightarrow>
      (\<exists>es. buildSettlementPlan balances = Some es))"
proof -
  have every: "0 < SettlementEntry.amount e \<and>
      (distinct (map (\<lambda>b. Participant.id (participant b)) balances) \<longrightarrow> from e \<noteq> to e)"
    if e: "e \<in> set (settlements (passes n (initialState balances)))" for n e
  proof -
    have "entriesSound (passes n (initialState balances))"
      by (intro entriesSound_passes initial_entriesSound)
    then have S: "0 < SettlementEntry.amount e"
      "from e \<in> set (map Pending.id (debtors (passes n (initialState balances))))"
      "to e \<in> set (map Pending.id (creditors (passes n (initialState balances))))"
      using e unfolding entriesSound_def by blast+
    have arrays: "debtors (initialState balances) = debtorsOf balances"
      "creditors (initialState balances) = creditorsOf balances"
      by (simp_all add: initialState_eq)
    have ids: "map Pending.id (debtors (passes n (initialState balances)))
                 = map Pending.id (debtorsOf balances)"
      "map Pending.id (creditors (passes n (initialState balances)))
                 = map Pending.id (creditorsOf balances)"
      using passes_ids[of n "initialState balances"] arrays by simp_all
    have E: "0 < SettlementEntry.amount e"
      "from e \<in> set (map Pending.id (debtorsOf balances))"
      "to e \<in> set (map Pending.id (creditorsOf balances))"
      using S by (simp_all only: ids)
    have "from e \<noteq> to e" if d: "distinct (map (\<lambda>b. Participant.id (participant b)) balances)"
    proof
      assume eq: "from e = to e"
      from E(2) obtain b1 where b1: "b1 \<in> set balances" "roundedDiff b1 < 0"
        "Participant.id (participant b1) = from e"
        by (auto simp: debtorsOf_def)
      from E(3) obtain b2 where b2: "b2 \<in> set balances" "0 < roundedDiff b2"
        "Participant.id (participant b2) = to e"
        by (auto simp: creditorsOf_def)
      have "inj_on (\<lambda>b. Participant.id (participant b)) (set balances)"
        using d by (simp add: distinct_map)
      then have "b1 = b2"
        by (rule inj_onD) (simp_all add: b1 b2 eq)
      then show False using b1(2) b2(2) number_sign_exclusive by blast
    qed
    then show ?thesis using E(1) by blast
  qed
  have returned: "\<forall>e\<in>set es. 0 < SettlementEntry.amount e \<and>
         (distinct (map (\<lambda>b. Participant.id (participant b)) balances) \<longrightarrow> from e \<noteq> to e)"
    if plan: "buildSettlementPlan balances = Some es" for es
  proof -
    from plan obtain s' where "settleLoop (initialState balances) = Some s'" "settlements s' = es"
      by (auto simp: buildSettlementPlan_def)
    then obtain n where "settlements (passes n (initialState balances)) = es"
      using settleLoop_passes by blast
    then show ?thesis using every[of _ n] by blast
  qed
  show ?thesis using every returned buildSettlementPlan_returns by blast
qed

theorem settlement_entries_witness:
  "distinct (map (\<lambda>b. Participant.id (participant b)) zeroSumBalances) \<and>
   ((\<forall>b\<in>set zeroSumBalances. roundedDiff b \<noteq> NInf) \<or> (\<forall>b\<in>set zeroSumBalances. roundedDiff b \<noteq> PInf)) \<and>
   buildSettlementPlan zeroSumBalances =
     Some [\<lparr>from = ''b'', to = ''a'', amount = num 1000\<rparr>,
           \<lparr>from = ''c'', to = ''a'', amount = num 1000\<rparr>] \<and>
   0 < SettlementEntry.amount \<lparr>from = ''b'', to = ''a'', amount = num 1000\<rparr> \<and>
   from \<lparr>from = ''b'', to = ''a'', amount = num 1000\<rparr> \<noteq> to \<lparr>from = ''b'', to = ''a'', amount = num 1000\<rparr>"
proof -
  have d: "distinct (map (\<lambda>b. Participant.id (participant b)) zeroSumBalances)"
    by (simp add: zeroSumBalances_def roundedOf_def example_defs)
  have fin: "(\<forall>b\<in>set zeroSumBalances. roundedDiff b \<noteq> NInf) \<or>
             (\<forall>b\<in>set zeroSumBalances. roundedDiff b \<noteq> PInf)"
    by (simp add: zeroSumBalances_def roundedOf_def number_eval)
  have m: "\<lparr>from = ''b'', to = ''a'', amount = num 1000\<rparr> \<in>
           set [\<lparr>from = ''b'', to = ''a'', amount = num 1000\<rparr>, \<lparr>from = ''c'', to = ''a'', amount = num 1000\<rparr>]"
    by simp
  note T = settlement_entries[of zeroSumBalances, THEN conjunct1, THEN spec, THEN mp,
      OF zeroSum_plan, THEN bspec, OF m]
  show ?thesis
    by (intro conjI d fin zeroSum_plan T[THEN conjunct1] T[THEN conjunct2, THEN mp, OF d])
qed

text \<open>
  Without distinct ids C5 fails: two balances of one participant, \<open>5\<close> and \<open>-5\<close>, give an
  entry from that participant to the same participant.
\<close>

theorem self_payment_counterexample:
  "buildSettlementPlan duplicateBalances = Some [\<lparr>from = ''a'', to = ''a'', amount = num 5\<rparr>] \<and>
   from \<lparr>from = ''a'', to = ''a'', amount = num 5\<rparr> = to \<lparr>from = ''a'', to = ''a'', amount = num 5\<rparr>"
  by (simp add: duplicate_plan)

subsection \<open>Whole amounts: transfers without rounding\<close>

lemma zero_plus: "isFinite x \<Longrightarrow> 0 + x = x"
  by (cases x) (simp_all add: zero_Fin)

lemma isInteger_finite: "isInteger x \<Longrightarrow> isFinite x"
  by (cases x) simp_all

lemma whole_number:
  assumes "isInteger x" "0 < x" "val x \<le> 2 ^ 53"
  shows "\<exists>m::int. x = num (of_int m) \<and> val x = of_int m \<and> 0 < m \<and> \<bar>of_int m :: rat\<bar> \<le> 2 ^ 53"
proof -
  from isInteger_val[OF assms(1)] obtain m :: int where m: "x = num (of_int m)" "val x = of_int m"
    by blast
  obtain a where a: "x = Fin a" using assms(1) by (auto simp: isInteger_iff)
  have "0 < val x" using assms(2) a by (simp add: zero_less_iff)
  then have "0 < m" using m(2) by simp
  moreover have "\<bar>of_int m :: rat\<bar> \<le> 2 ^ 53" using assms(3) m(2) \<open>0 < val x\<close> by simp
  ultimately show ?thesis using m by blast
qed

lemma whole_transfer:
  assumes x: "isInteger x" "0 < x" "val x \<le> 2 ^ 53"
    and y: "isInteger y" "0 < y" "val y \<le> 2 ^ 53"
  defines "a \<equiv> Math_min x y"
  shows "isInteger a \<and> 0 < a \<and> val a = min (val x) (val y) \<and>
         isInteger (x - a) \<and> val (x - a) = val x - val a \<and>
         isInteger (y - a) \<and> val (y - a) = val y - val a"
proof -
  from whole_number[OF x] obtain m :: int where
    m: "x = num (of_int m)" "val x = of_int m" "0 < m" "\<bar>of_int m :: rat\<bar> \<le> 2 ^ 53" by blast
  from whole_number[OF y] obtain n :: int where
    n: "y = num (of_int n)" "val y = of_int n" "0 < n" "\<bar>of_int n :: rat\<bar> \<le> 2 ^ 53" by blast
  note M = num_of_int[OF m(4)] and N = num_of_int[OF n(4)]
  have less: "(x < y) = (m < n)" using M(4) N(4) by (simp add: m(1) n(1) num_less)
  have a: "a = num (of_int (min m n))"
    using less M(4) N(4) by (auto simp: a_def Math_min_def m(1) n(1) num_distinct min_def)
  have k: "\<bar>of_int (min m n) :: rat\<bar> \<le> 2 ^ 53" using m(3,4) n(3,4) by (simp add: min_def)
  note K = num_of_int[OF k]
  have dx: "x - a = num (of_int (m - min m n))" using M(4) K(4) by (simp add: m(1) a num_minus)
  have dy: "y - a = num (of_int (n - min m n))" using N(4) K(4) by (simp add: n(1) a num_minus)
  have bx: "\<bar>of_int (m - min m n) :: rat\<bar> \<le> 2 ^ 53" using m(3,4) n(3) by (simp add: min_def)
  have by': "\<bar>of_int (n - min m n) :: rat\<bar> \<le> 2 ^ 53" using n(3,4) m(3) by (simp add: min_def)
  note X = num_of_int[OF bx] and Y = num_of_int[OF by']
  have pos: "0 < a" using m(3) n(3) K(4) by (simp add: a zero_number_def num_less min_def)
  have va: "val a = min (val x) (val y)" unfolding a K(2) m(2) n(2) by (simp add: min_def)
  have vk: "val a = of_int (min m n)" using K(2) by (simp only: a)
  have "val (x - a) = of_int (m - min m n)" using X(2) by (simp only: dx)
  then have vx: "val (x - a) = val x - val a" by (simp only: vk m(2) of_int_diff)
  have "val (y - a) = of_int (n - min m n)" using Y(2) by (simp only: dy)
  then have vy: "val (y - a) = val y - val a" by (simp only: vk n(2) of_int_diff)
  have "isInteger a" using K(1) by (simp only: a)
  moreover have "isInteger (x - a)" using X(1) by (simp only: dx)
  moreover have "isInteger (y - a)" using Y(1) by (simp only: dy)
  ultimately show ?thesis
    using pos va vx vy by blast
qed

lemma weight_Nil [simp]: "weight Q [] = 0"
  by (simp add: weight_def)

lemma weight_Cons:
  "weight Q (x # xs) = (if Q (Pending.id x) then val (Pending.amount x) else 0) + weight Q xs"
  by (simp add: weight_def)

lemma wholeAmounts_Cons:
  "wholeAmounts (x # xs) \<longleftrightarrow>
     isInteger (Pending.amount x) \<and> 0 < Pending.amount x \<and> val (Pending.amount x) \<le> 2 ^ 53 \<and>
     wholeAmounts xs"
  by (auto simp: wholeAmounts_def)

lemma wholeAmounts_Nil [simp]: "wholeAmounts []"
  by (simp add: wholeAmounts_def)

lemma positive_val: "isFinite x \<Longrightarrow> 0 < x \<Longrightarrow> 0 < val x"
  by (cases x) (simp_all add: zero_less_iff)

lemma weight_nonneg: "wholeAmounts xs \<Longrightarrow> 0 \<le> weight Q xs"
proof (induction xs)
  case Nil
  then show ?case by simp
next
  case (Cons x xs)
  then have "0 < val (Pending.amount x)"
    using positive_val isInteger_finite by (auto simp: wholeAmounts_Cons)
  then show ?case using Cons by (simp add: weight_Cons wholeAmounts_Cons)
qed

lemma weight_all_positive: "wholeAmounts xs \<Longrightarrow> xs \<noteq> [] \<Longrightarrow> 0 < weight (\<lambda>k. True) xs"
proof (cases xs)
  case Nil
  assume "xs \<noteq> []"
  then show ?thesis using Nil by simp
next
  case (Cons x ys)
  assume w: "wholeAmounts xs"
  then have "0 < val (Pending.amount x)"
    using Cons positive_val isInteger_finite by (auto simp: wholeAmounts_Cons)
  moreover have "0 \<le> weight (\<lambda>k. True) ys" using w Cons by (simp add: wholeAmounts_Cons weight_nonneg)
  ultimately show ?thesis using Cons by (simp add: weight_Cons)
qed

lemma greedy_exact:
  assumes "greedy ds cs = Some (es, dl, cl)" and "wholeAmounts ds" and "wholeAmounts cs"
  shows "wholeAmounts dl \<and> wholeAmounts cl \<and>
         (\<forall>e\<in>set es. isInteger (SettlementEntry.amount e) \<and> 0 < SettlementEntry.amount e) \<and>
         sent Q es + weight Q dl = weight Q ds \<and>
         received R es + weight R cl = weight R cs"
  using assms
proof (induction ds cs arbitrary: es rule: greedy.induct)
  case (1 cs)
  then show ?case by (auto simp: sent_def received_def)
next
  case (2 d ds)
  then show ?case by (auto simp: sent_def received_def)
next
  case (3 d ds c cs)
  let ?x = "Pending.amount d"
  let ?y = "Pending.amount c"
  let ?a = "Math_min ?x ?y"
  let ?ds' = "if strictEquals (?x - ?a) 0 then ds else d\<lparr>Pending.amount := ?x - ?a\<rparr> # ds"
  let ?cs' = "if strictEquals (?y - ?a) 0 then cs else c\<lparr>Pending.amount := ?y - ?a\<rparr> # cs"
  from greedy_step[OF 3(2)] obtain es' where
    m: "strictEquals (?x - ?a) 0 \<or> strictEquals (?y - ?a) 0"
    and r: "greedy ?ds' ?cs' = Some (es', dl, cl)"
    and es: "es = (if ?a > 0 then [\<lparr>from = Pending.id d, to = Pending.id c, amount = ?a\<rparr>] else []) @ es'"
    by blast
  have wx: "isInteger ?x" "0 < ?x" "val ?x \<le> 2 ^ 53" and wds: "wholeAmounts ds"
    using 3(3) by (simp_all add: wholeAmounts_Cons)
  have wy: "isInteger ?y" "0 < ?y" "val ?y \<le> 2 ^ 53" and wcs: "wholeAmounts cs"
    using 3(4) by (simp_all add: wholeAmounts_Cons)
  note W = whole_transfer[OF wx wy]
  note F = transfer_facts[OF wx(2) wy(2) m]
  have es2: "es = \<lparr>from = Pending.id d, to = Pending.id c, amount = ?a\<rparr> # es'"
    using es F by simp
  have vx0: "strictEquals (?x - ?a) 0 \<Longrightarrow> val (?x - ?a) = 0"
    and vy0: "strictEquals (?y - ?a) 0 \<Longrightarrow> val (?y - ?a) = 0"
    by (simp_all add: strictEquals_zero)
  have px: "0 < val ?x" and py: "0 < val ?y"
    using wx wy positive_val isInteger_finite by blast+
  have lex: "val (?x - ?a) \<le> 2 ^ 53" and ley: "val (?y - ?a) \<le> 2 ^ 53"
    using W wx(3) wy(3) px py by (simp_all add: min_def split: if_splits)
  have pd: "wholeAmounts ?ds'" using wds W F lex by (simp add: wholeAmounts_Cons)
  have pc: "wholeAmounts ?cs'" using wcs W F ley by (simp add: wholeAmounts_Cons)
  note IH = 3(1)[OF refl refl refl m r pd pc]
  have sd: "weight Q ?ds' = (if Q (Pending.id d) then val (?x - ?a) else 0) + weight Q ds"
    using vx0 by (simp add: weight_Cons)
  have sc: "weight R ?cs' = (if R (Pending.id c) then val (?y - ?a) else 0) + weight R cs"
    using vy0 by (simp add: weight_Cons)
  have S: "sent Q es + weight Q dl = weight Q (d # ds)"
  proof -
    have "sent Q es + weight Q dl = (if Q (Pending.id d) then val ?a else 0) + (sent Q es' + weight Q dl)"
      by (simp add: es2 sent_def)
    also have "\<dots> = (if Q (Pending.id d) then val ?a else 0) + weight Q ?ds'" using IH by simp
    also have "\<dots> = weight Q (d # ds)" using W by (simp only: sd weight_Cons) simp
    finally show ?thesis .
  qed
  have T: "received R es + weight R cl = weight R (c # cs)"
  proof -
    have "received R es + weight R cl = (if R (Pending.id c) then val ?a else 0) + (received R es' + weight R cl)"
      by (simp add: es2 received_def)
    also have "\<dots> = (if R (Pending.id c) then val ?a else 0) + weight R ?cs'" using IH by simp
    also have "\<dots> = weight R (c # cs)" using W by (simp only: sc weight_Cons) simp
    finally show ?thesis .
  qed
  have ent: "\<forall>e\<in>set es. isInteger (SettlementEntry.amount e) \<and> 0 < SettlementEntry.amount e"
    using IH W by (simp add: es2)
  show ?case using IH S T ent by blast
qed

lemma greedy_whole_returns:
  assumes "wholeAmounts ds" "wholeAmounts cs"
  shows "\<exists>es dl cl. greedy ds cs = Some (es, dl, cl)"
proof -
  have "\<forall>x\<in>set ds. 0 < Pending.amount x" "\<forall>x\<in>set cs. 0 < Pending.amount x"
    "\<forall>x\<in>set ds. isFinite (Pending.amount x)"
    using assms isInteger_finite by (auto simp: wholeAmounts_def)
  from greedy_returns[OF this(1,2)] this(3) show ?thesis by (metis prod_cases3)
qed

subsection \<open>Whole balances\<close>

lemma whole_cases:
  assumes "isInteger x" "\<bar>val x\<bar> \<le> 2 ^ 53"
  shows "\<exists>n::int. x = num (of_int n) \<and> val x = of_int n \<and> \<bar>of_int n :: rat\<bar> \<le> 2 ^ 53 \<and>
           (0 < x) = (0 < n) \<and> (x < 0) = (n < 0) \<and>
           isInteger (Math_abs x) \<and> val (Math_abs x) = \<bar>of_int n\<bar>"
proof -
  from isInteger_val[OF assms(1)] obtain n :: int where n: "x = num (of_int n)" "val x = of_int n"
    by blast
  have b: "\<bar>of_int n :: rat\<bar> \<le> 2 ^ 53" using assms(2) n(2) by simp
  note N = num_of_int[OF b]
  have b': "\<bar>of_int \<bar>n\<bar> :: rat\<bar> \<le> 2 ^ 53" using b by simp
  note A = num_of_int[OF b']
  have abs: "Math_abs x = num (of_int \<bar>n\<bar>)"
    using N(4) by (simp add: Math_abs_def n(1) num_abs)
  have p: "(0 < x) = (0 < n)" using N(4) by (simp add: n(1) zero_number_def num_less)
  have q: "(x < 0) = (n < 0)" using N(4) by (simp add: n(1) zero_number_def num_less)
  have "isInteger (Math_abs x)" using A(1) by (simp only: abs)
  moreover have "val (Math_abs x) = \<bar>of_int n\<bar>" using A(2) by (simp only: abs of_int_abs)
  ultimately show ?thesis using n b p q by blast
qed

lemma safeIntegers_member:
  "safeIntegers xs \<Longrightarrow> x \<in> set xs \<Longrightarrow> isInteger x \<and> \<bar>val x\<bar> \<le> 2 ^ 53"
  using member_le_sums[of x xs] by (auto simp: safeIntegers_def max_def abs_if split: if_splits)

lemma sums_filter:
  "positiveSum (map f (filter P xs)) \<le> positiveSum (map f xs)"
  "negativeSum (map f (filter P xs)) \<le> negativeSum (map f xs)"
  by (induction xs) (simp_all add: add_increasing)

lemma safeIntegers_filter: "safeIntegers (map f xs) \<Longrightarrow> safeIntegers (map f (filter P xs))"
  using sums_filter[of f P xs] by (auto simp: safeIntegers_def)

lemma sums_abs_negative:
  "\<forall>x\<in>set xs. isInteger (f x) \<and> \<bar>val (f x)\<bar> \<le> 2 ^ 53 \<and> f x < 0 \<Longrightarrow>
   positiveSum (map (\<lambda>x. Math_abs (f x)) xs) = negativeSum (map f xs) \<and>
   negativeSum (map (\<lambda>x. Math_abs (f x)) xs) = 0"
proof (induction xs)
  case Nil
  then show ?case by simp
next
  case (Cons x xs)
  from whole_cases[of "f x"] Cons.prems obtain n :: int where
    "val (f x) = of_int n" "n < 0" "val (Math_abs (f x)) = \<bar>of_int n\<bar>" by auto
  then show ?case using Cons by simp
qed

lemma safeIntegers_abs_negative:
  assumes "safeIntegers (map f xs)" and "\<forall>x\<in>set xs. f x < 0"
  shows "safeIntegers (map (\<lambda>x. Math_abs (f x)) xs)"
proof -
  have m: "\<forall>x\<in>set xs. isInteger (f x) \<and> \<bar>val (f x)\<bar> \<le> 2 ^ 53 \<and> f x < 0"
    using safeIntegers_member[OF assms(1)] assms(2) by simp
  then have "\<forall>x\<in>set xs. isInteger (Math_abs (f x))" using whole_cases by blast
  then show ?thesis using sums_abs_negative[OF m] assms(1) by (simp add: safeIntegers_def)
qed

lemma balance_split:
  "\<forall>b\<in>set balances. isInteger (roundedDiff b) \<and> \<bar>val (roundedDiff b)\<bar> \<le> 2 ^ 53 \<Longrightarrow>
   sum_list (map (\<lambda>b. if Q (Participant.id (participant b)) then val (roundedDiff b) else 0) balances)
     = weight Q (creditorsOf balances) - weight Q (debtorsOf balances)"
proof (induction balances)
  case Nil
  then show ?case by (simp add: creditorsOf_def debtorsOf_def)
next
  case (Cons b bs)
  from whole_cases[of "roundedDiff b"] Cons.prems obtain n :: int where
    n: "val (roundedDiff b) = of_int n" "(0 < roundedDiff b) = (0 < n)"
      "(roundedDiff b < 0) = (n < 0)" "val (Math_abs (roundedDiff b)) = \<bar>of_int n\<bar>"
    by auto
  have IH: "sum_list (map (\<lambda>b. if Q (Participant.id (participant b)) then val (roundedDiff b) else 0) bs)
     = weight Q (creditorsOf bs) - weight Q (debtorsOf bs)" using Cons by simp
  consider "0 < n" | "n < 0" | "n = 0" by linarith
  then show ?case
  proof cases
    case 1
    then show ?thesis using n IH by (simp add: creditorsOf_def debtorsOf_def weight_Cons)
  next
    case 2
    then show ?thesis using n IH by (simp add: creditorsOf_def debtorsOf_def weight_Cons)
  next
    case 3
    then show ?thesis using n IH by (simp add: creditorsOf_def debtorsOf_def weight_Cons)
  qed
qed

lemma weights_sums:
  "\<forall>b\<in>set balances. isInteger (roundedDiff b) \<and> \<bar>val (roundedDiff b)\<bar> \<le> 2 ^ 53 \<Longrightarrow>
   weight (\<lambda>k. True) (creditorsOf balances) = positiveSum (map roundedDiff balances) \<and>
   weight (\<lambda>k. True) (debtorsOf balances) = negativeSum (map roundedDiff balances)"
proof (induction balances)
  case Nil
  then show ?case by (simp add: creditorsOf_def debtorsOf_def)
next
  case (Cons b bs)
  from whole_cases[of "roundedDiff b"] Cons.prems obtain n :: int where
    n: "val (roundedDiff b) = of_int n" "(0 < roundedDiff b) = (0 < n)"
      "(roundedDiff b < 0) = (n < 0)" "val (Math_abs (roundedDiff b)) = \<bar>of_int n\<bar>"
    by auto
  have IH: "weight (\<lambda>k. True) (creditorsOf bs) = positiveSum (map roundedDiff bs) \<and>
     weight (\<lambda>k. True) (debtorsOf bs) = negativeSum (map roundedDiff bs)" using Cons by simp
  consider "0 < n" | "n < 0" | "n = 0" by linarith
  then show ?case
  proof cases
    case 1
    then show ?thesis using n IH by (simp add: creditorsOf_def debtorsOf_def weight_Cons)
  next
    case 2
    then show ?thesis using n IH by (simp add: creditorsOf_def debtorsOf_def weight_Cons)
  next
    case 3
    then show ?thesis using n IH by (simp add: creditorsOf_def debtorsOf_def weight_Cons)
  qed
qed

lemma pending_whole:
  assumes "safeIntegers (map roundedDiff balances)"
  shows "wholeAmounts (debtorsOf balances)" "wholeAmounts (creditorsOf balances)"
proof -
  have m: "\<forall>b\<in>set balances. isInteger (roundedDiff b) \<and> \<bar>val (roundedDiff b)\<bar> \<le> 2 ^ 53"
    using safeIntegers_member[OF assms] by simp
  show "wholeAmounts (debtorsOf balances)"
    unfolding wholeAmounts_def
  proof
    fix x assume x: "x \<in> set (debtorsOf balances)"
    then obtain b where b: "b \<in> set balances" "Pending.amount x = Math_abs (roundedDiff b)"
      by (auto simp: debtorsOf_def)
    from whole_cases[of "roundedDiff b"] m b(1) obtain n :: int where
      "\<bar>of_int n :: rat\<bar> \<le> 2 ^ 53" "isInteger (Math_abs (roundedDiff b))"
      "val (Math_abs (roundedDiff b)) = \<bar>of_int n\<bar>" by blast
    then show "isInteger (Pending.amount x) \<and> 0 < Pending.amount x \<and> val (Pending.amount x) \<le> 2 ^ 53"
      using debtorsOf_positive[OF x] b(2) by simp
  qed
  show "wholeAmounts (creditorsOf balances)"
    unfolding wholeAmounts_def
  proof
    fix x assume x: "x \<in> set (creditorsOf balances)"
    then obtain b where b: "b \<in> set balances" "Pending.amount x = roundedDiff b"
      by (auto simp: creditorsOf_def)
    then show "isInteger (Pending.amount x) \<and> 0 < Pending.amount x \<and> val (Pending.amount x) \<le> 2 ^ 53"
      using creditorsOf_positive[OF x] m by auto
  qed
qed

lemma totals_exact:
  assumes "safeIntegers (map roundedDiff balances)"
  shows "\<exists>c d :: int. creditTotal balances = num (of_int c) \<and> debitTotal balances = num (of_int d) \<and>
           of_int c = weight (\<lambda>k. True) (creditorsOf balances) \<and>
           of_int d = weight (\<lambda>k. True) (debtorsOf balances) \<and>
           \<bar>of_int c :: rat\<bar> \<le> 2 ^ 53 \<and> \<bar>of_int d :: rat\<bar> \<le> 2 ^ 53"
proof -
  have sc: "safeIntegers (map roundedDiff (filter (\<lambda>b. 0 < roundedDiff b) balances))"
    using assms by (rule safeIntegers_filter)
  have "safeIntegers (map roundedDiff (filter (\<lambda>b. roundedDiff b < 0) balances))"
    using assms by (rule safeIntegers_filter)
  then have sd: "safeIntegers (map (\<lambda>b. Math_abs (roundedDiff b)) (filter (\<lambda>b. roundedDiff b < 0) balances))"
    by (rule safeIntegers_abs_negative) simp
  from sumNumbers_exact[OF sc] obtain c :: int where
    c: "creditTotal balances = num (of_int c)"
      "of_int c = sum_list (map val (map roundedDiff (filter (\<lambda>b. 0 < roundedDiff b) balances)))"
      "\<bar>of_int c :: rat\<bar> \<le> 2 ^ 53"
    unfolding creditTotal_def by blast
  from sumNumbers_exact[OF sd] obtain d :: int where
    d: "debitTotal balances = num (of_int d)"
      "of_int d = sum_list (map val (map (\<lambda>b. Math_abs (roundedDiff b)) (filter (\<lambda>b. roundedDiff b < 0) balances)))"
      "\<bar>of_int d :: rat\<bar> \<le> 2 ^ 53"
    unfolding debitTotal_def by blast
  have "of_int c = weight (\<lambda>k. True) (creditorsOf balances)"
    using c(2) by (simp add: weight_def creditorsOf_def comp_def)
  moreover have "of_int d = weight (\<lambda>k. True) (debtorsOf balances)"
    using d(2) by (simp add: weight_def debtorsOf_def comp_def)
  ultimately show ?thesis using c d by blast
qed

lemma sum_filter_if:
  "sum_list (map f (filter P xs)) = sum_list (map (\<lambda>x. if P x then f x else (0::rat)) xs)"
  by (induction xs) simp_all

lemma balanceOfId_exact:
  assumes "safeIntegers (map roundedDiff balances)"
  shows "\<exists>n::int. balanceOfId p balances = num (of_int n) \<and> \<bar>of_int n :: rat\<bar> \<le> 2 ^ 53 \<and>
           of_int n = weight (\<lambda>k. k = p) (creditorsOf balances) - weight (\<lambda>k. k = p) (debtorsOf balances)"
proof -
  have m: "\<forall>b\<in>set balances. isInteger (roundedDiff b) \<and> \<bar>val (roundedDiff b)\<bar> \<le> 2 ^ 53"
    using safeIntegers_member[OF assms] by simp
  have "safeIntegers (map roundedDiff (filter (\<lambda>b. Participant.id (participant b) = p) balances))"
    using assms by (rule safeIntegers_filter)
  from sumNumbers_exact[OF this] obtain n :: int where
    n: "balanceOfId p balances = num (of_int n)"
      "of_int n = sum_list (map val (map roundedDiff (filter (\<lambda>b. Participant.id (participant b) = p) balances)))"
      "\<bar>of_int n :: rat\<bar> \<le> 2 ^ 53"
    unfolding balanceOfId_def by blast
  have "of_int n = sum_list (map (\<lambda>b. if Participant.id (participant b) = p then val (roundedDiff b) else 0) balances)"
    using n(2) sum_filter_if[of "\<lambda>b. val (roundedDiff b)" "\<lambda>b. Participant.id (participant b) = p" balances]
    by (simp add: comp_def)
  then have "of_int n = weight (\<lambda>k. k = p) (creditorsOf balances) - weight (\<lambda>k. k = p) (debtorsOf balances)"
    using balance_split[OF m, of "\<lambda>k. k = p"] by simp
  then show ?thesis using n by blast
qed

lemma sent_all: "sent (\<lambda>k. True) es = sum_list (map (\<lambda>e. val (SettlementEntry.amount e)) es)"
  by (simp add: sent_def)

lemma received_all: "received (\<lambda>k. True) es = sent (\<lambda>k. True) es"
  by (simp add: sent_def received_def)

lemma sums_nonneg:
  "\<forall>x\<in>set xs. 0 \<le> val (f x) \<Longrightarrow>
   positiveSum (map f xs) = sum_list (map (\<lambda>x. val (f x)) xs) \<and> negativeSum (map f xs) = 0"
  by (induction xs) simp_all

lemma entries_exact:
  assumes w: "\<forall>e\<in>set es. isInteger (SettlementEntry.amount e) \<and> 0 < SettlementEntry.amount e"
    and b: "sent (\<lambda>k. True) es \<le> 2 ^ 53"
  shows "\<exists>n::int. sumNumbers (map SettlementEntry.amount (filter P es)) = num (of_int n) \<and>
           \<bar>of_int n :: rat\<bar> \<le> 2 ^ 53 \<and>
           of_int n = sum_list (map (\<lambda>e. if P e then val (SettlementEntry.amount e) else 0) es)"
proof -
  have pos: "\<forall>e\<in>set es. 0 \<le> val (SettlementEntry.amount e)"
    using w positive_val isInteger_finite by (metis less_imp_le)
  have "positiveSum (map SettlementEntry.amount es) \<le> 2 ^ 53"
    "negativeSum (map SettlementEntry.amount es) \<le> 2 ^ 53"
    using sums_nonneg[OF pos] b by (simp_all add: sent_all)
  then have "safeIntegers (map SettlementEntry.amount es)" using w by (simp add: safeIntegers_def)
  then have "safeIntegers (map SettlementEntry.amount (filter P es))" by (rule safeIntegers_filter)
  from sumNumbers_exact[OF this] obtain n :: int where
    n: "sumNumbers (map SettlementEntry.amount (filter P es)) = num (of_int n)"
      "of_int n = sum_list (map val (map SettlementEntry.amount (filter P es)))"
      "\<bar>of_int n :: rat\<bar> \<le> 2 ^ 53"
    by blast
  have "of_int n = sum_list (map (\<lambda>e. if P e then val (SettlementEntry.amount e) else 0) es)"
    using n(2) sum_filter_if[of "\<lambda>e. val (SettlementEntry.amount e)" P es] by (simp add: comp_def)
  then show ?thesis using n by blast
qed

text \<open>
  What the loop does on whole balances whose credits and whose debts each sum to at most
  \<open>2^53\<close>: it returns, and every total below is the exact one.
\<close>

lemma whole_plan:
  assumes "safeIntegers (map roundedDiff balances)"
  shows "\<exists>es dl cl. greedy (debtorsOf balances) (creditorsOf balances) = Some (es, dl, cl) \<and>
           (dl = [] \<or> cl = []) \<and> wholeAmounts dl \<and> wholeAmounts cl \<and>
           (\<forall>e\<in>set es. isInteger (SettlementEntry.amount e) \<and> 0 < SettlementEntry.amount e) \<and>
           sent (\<lambda>k. True) es \<le> 2 ^ 53 \<and>
           (\<forall>Q. sent Q es + weight Q dl = weight Q (debtorsOf balances)) \<and>
           (\<forall>R. received R es + weight R cl = weight R (creditorsOf balances))"
proof -
  note W = pending_whole[OF assms]
  from greedy_whole_returns[OF W] obtain es dl cl where
    g: "greedy (debtorsOf balances) (creditorsOf balances) = Some (es, dl, cl)" by blast
  note E = greedy_exact[OF g W]
  have m: "\<forall>b\<in>set balances. isInteger (roundedDiff b) \<and> \<bar>val (roundedDiff b)\<bar> \<le> 2 ^ 53"
    using safeIntegers_member[OF assms] by simp
  have "weight (\<lambda>k. True) (debtorsOf balances) \<le> 2 ^ 53"
    using weights_sums[OF m] assms by (simp add: safeIntegers_def)
  moreover have "0 \<le> weight (\<lambda>k. True) dl" using E weight_nonneg by blast
  moreover have "sent (\<lambda>k. True) es + weight (\<lambda>k. True) dl = weight (\<lambda>k. True) (debtorsOf balances)"
    using E by blast
  ultimately have "sent (\<lambda>k. True) es \<le> 2 ^ 53" by linarith
  then show ?thesis using g greedy_exit[OF g] E by blast
qed

lemma distinct_filter_single:
  "distinct (map f xs) \<Longrightarrow> x \<in> set xs \<Longrightarrow> filter (\<lambda>y. f y = f x) xs = [x]"
proof (induction xs)
  case Nil
  then show ?case by simp
next
  case (Cons y ys)
  show ?case
  proof (cases "x = y")
    case True
    have "filter (\<lambda>z. f z = f y) ys = []"
      using Cons.prems(1) by (auto simp: filter_empty_conv image_iff)
    then show ?thesis using True by simp
  next
    case False
    then have "x \<in> set ys" using Cons.prems by simp
    then have "f y \<noteq> f x" using Cons.prems(1) by auto
    then show ?thesis using Cons \<open>x \<in> set ys\<close> by simp
  qed
qed

subsection \<open>C1: a zero-sum list is settled\<close>

text \<open>
  C1 (as amended). For every list of balances whose \<open>roundedDiff\<close> values are whole
  numbers, the positive ones summing to at most \<open>2^53\<close> and the negative ones to at least
  \<open>-2^53\<close>, and sum to zero: \<open>buildSettlementPlan\<close> returns, its loop ends with both
  cursors at the ends of their arrays (both lists exhausted), and applying all emitted
  entries, each amount added to the balance of the \<open>from\<close> participant and subtracted
  from the balance of the \<open>to\<close> participant, leaves the balance of every participant id
  exactly \<open>0\<close>; with distinct participant ids that is every balance of the list. All sums
  are the ones JavaScript computes, from left to right.
\<close>

theorem zero_sum_settles:
  assumes "safeIntegers (map roundedDiff balances)"
    and "sumNumbers (map roundedDiff balances) = 0"
  shows "\<exists>s'. settleLoop (initialState balances) = Some s' \<and>
           buildSettlementPlan balances = Some (settlements s') \<and>
           debtorIndex s' = length (debtors s') \<and>
           creditorIndex s' = length (creditors s') \<and>
           (\<forall>p. settledBalance p balances (settlements s') = 0) \<and>
           (distinct (map (\<lambda>b. Participant.id (participant b)) balances) \<longrightarrow>
              (\<forall>b\<in>set balances.
                 roundedDiff b + sentBy (Participant.id (participant b)) (settlements s')
                   - receivedBy (Participant.id (participant b)) (settlements s') = 0))"
proof -
  let ?D = "debtorsOf balances" and ?C = "creditorsOf balances"
  have m: "\<forall>b\<in>set balances. isInteger (roundedDiff b) \<and> \<bar>val (roundedDiff b)\<bar> \<le> 2 ^ 53"
    using safeIntegers_member[OF assms(1)] by simp
  from sumNumbers_exact[OF assms(1)] obtain n :: int where
    n: "sumNumbers (map roundedDiff balances) = num (of_int n)"
      "of_int n = sum_list (map val (map roundedDiff balances))" "\<bar>of_int n :: rat\<bar> \<le> 2 ^ 53"
    by blast
  have "n = 0" using assms(2) n(1) num_of_int_eq_zero[OF n(3)] by simp
  then have "sum_list (map (\<lambda>b. if (\<lambda>k. True) (Participant.id (participant b)) then val (roundedDiff b) else 0) balances) = 0"
    using n(2) by (simp add: comp_def)
  then have tot: "weight (\<lambda>k. True) ?C = weight (\<lambda>k. True) ?D"
    using balance_split[OF m, of "\<lambda>k. True"] by simp
  from whole_plan[OF assms(1)] obtain es dl cl where
    g: "greedy ?D ?C = Some (es, dl, cl)" and ex: "dl = [] \<or> cl = []"
    and wd: "wholeAmounts dl" and wc: "wholeAmounts cl"
    and we: "\<forall>e\<in>set es. isInteger (SettlementEntry.amount e) \<and> 0 < SettlementEntry.amount e"
    and sb: "sent (\<lambda>k. True) es \<le> 2 ^ 53"
    and cd: "\<And>Q. sent Q es + weight Q dl = weight Q ?D"
    and cc: "\<And>R. received R es + weight R cl = weight R ?C"
    by blast
  have eq: "weight (\<lambda>k. True) dl = weight (\<lambda>k. True) cl"
    using cd[of "\<lambda>k. True"] cc[of "\<lambda>k. True"] tot by (simp add: received_all)
  have both: "dl = [] \<and> cl = []"
    using ex eq weight_all_positive[OF wd] weight_all_positive[OF wc] by fastforce
  from settleLoop_initial_Some[OF g] both obtain s' where
    s': "settleLoop (initialState balances) = Some s'" "settlements s' = es"
    "buildSettlementPlan balances = Some es"
    "debtorIndex s' = length (debtors s')" "creditorIndex s' = length (creditors s')"
    by auto
  have settled: "settledBalance p balances es = 0" for p
  proof -
    let ?Q = "\<lambda>k. k = p"
    from balanceOfId_exact[OF assms(1), of p] obtain b :: int where
      b: "balanceOfId p balances = num (of_int b)" "\<bar>of_int b :: rat\<bar> \<le> 2 ^ 53"
        "of_int b = weight ?Q ?C - weight ?Q ?D" by blast
    from entries_exact[OF we sb, of "\<lambda>e. from e = p"] obtain s :: int where
      s: "sentBy p es = num (of_int s)" "\<bar>of_int s :: rat\<bar> \<le> 2 ^ 53"
        "of_int s = sent ?Q es" by (auto simp: sentBy_def sent_def)
    from entries_exact[OF we sb, of "\<lambda>e. to e = p"] obtain r :: int where
      r: "receivedBy p es = num (of_int r)" "\<bar>of_int r :: rat\<bar> \<le> 2 ^ 53"
        "of_int r = received ?Q es" by (auto simp: receivedBy_def received_def)
    have "(of_int b :: rat) + of_int s = of_int r"
      using b(3) s(3) r(3) cd[of ?Q] cc[of ?Q] both by simp
    then have bs: "b + s = r" by (metis of_int_add of_int_eq_iff)
    note B = num_of_int[OF b(2)] and S = num_of_int[OF s(2)] and R = num_of_int[OF r(2)]
    have "num (of_int b) + num (of_int s) = num (of_int r)"
      using B(4) S(4) bs by (simp add: num_plus flip: of_int_add)
    moreover have "num (of_int r) - num (of_int r) = 0"
      using R(4) by (simp add: num_minus zero_number_def)
    ultimately show ?thesis by (simp add: settledBalance_def b(1) s(1) r(1))
  qed
  have each: "roundedDiff b + sentBy (Participant.id (participant b)) es
                   - receivedBy (Participant.id (participant b)) es = 0"
    if d: "distinct (map (\<lambda>b. Participant.id (participant b)) balances)" and b: "b \<in> set balances"
    for b
  proof -
    have "isFinite (roundedDiff b)" using m b isInteger_finite by blast
    then have "balanceOfId (Participant.id (participant b)) balances = roundedDiff b"
      using distinct_filter_single[OF d b] by (simp add: balanceOfId_def sumNumbers_def zero_plus)
    then show ?thesis
      using settled[of "Participant.id (participant b)"] by (simp add: settledBalance_def)
  qed
  show ?thesis using s' settled each by (intro exI[of _ s']) simp
qed

theorem zero_sum_settles_witness:
  "safeIntegers (map roundedDiff zeroSumBalances) \<and>
   sumNumbers (map roundedDiff zeroSumBalances) = 0 \<and>
   buildSettlementPlan zeroSumBalances =
     Some [\<lparr>from = ''b'', to = ''a'', amount = num 1000\<rparr>,
           \<lparr>from = ''c'', to = ''a'', amount = num 1000\<rparr>] \<and>
   (\<exists>s'. settleLoop (initialState zeroSumBalances) = Some s' \<and>
         debtorIndex s' = length (debtors s') \<and> creditorIndex s' = length (creditors s')) \<and>
   settledBalance ''a'' zeroSumBalances
     [\<lparr>from = ''b'', to = ''a'', amount = num 1000\<rparr>,
      \<lparr>from = ''c'', to = ''a'', amount = num 1000\<rparr>] = 0 \<and>
   settledBalance ''b'' zeroSumBalances
     [\<lparr>from = ''b'', to = ''a'', amount = num 1000\<rparr>,
      \<lparr>from = ''c'', to = ''a'', amount = num 1000\<rparr>] = 0"
proof -
  have w: "safeIntegers (map roundedDiff zeroSumBalances)"
    by (simp add: zeroSumBalances_def roundedOf_def safeIntegers_eval isInteger_numeral
        representable_numeral)
  have z: "sumNumbers (map roundedDiff zeroSumBalances) = 0"
    by (simp add: zeroSumBalances_def roundedOf_def sumNumbers_def number_eval)
  from zero_sum_settles[OF w z] obtain s' where
    s': "settleLoop (initialState zeroSumBalances) = Some s'"
      "buildSettlementPlan zeroSumBalances = Some (settlements s')"
      "debtorIndex s' = length (debtors s')" "creditorIndex s' = length (creditors s')"
      "\<forall>p. settledBalance p zeroSumBalances (settlements s') = 0"
    by blast
  have es: "settlements s' = [\<lparr>from = ''b'', to = ''a'', amount = num 1000\<rparr>,
           \<lparr>from = ''c'', to = ''a'', amount = num 1000\<rparr>]"
    using s'(2) zeroSum_plan by simp
  show ?thesis using w z zeroSum_plan s' es by auto
qed

text \<open>
  As the claim words it, C1 fails in two ways. With the amount subtracted from the
  \<open>from\<close> balance and added to the \<open>to\<close> balance, the balances \<open>2000, -1000, -1000\<close> are
  doubled instead of cleared. And a zero sum of the numbers does not make the loop exhaust
  both lists: the balances \<open>1, 1, 2^53, -(2^53 + 2)\<close> sum to \<open>0\<close> as JavaScript adds them
  (and as integers), the debt \<open>2^53 + 2\<close> less \<open>1\<close> is rounded to \<open>2^53\<close>, the loop emits
  \<open>1, 1, 2^53 - 1\<close> and stops with the debtor list exhausted, the creditor cursor at \<open>2\<close> of
  \<open>3\<close> and \<open>c\<close> still owed \<open>1\<close>. The same happens to small balances that are not whole:
  of \<open>2^-52, 2^-52, 2, -(2 + 2^-51)\<close> the creditor \<open>c\<close> is still owed \<open>2^-52\<close>.
\<close>

theorem zero_sum_counterexample:
  "sumNumbers (map roundedDiff zeroSumBalances) = 0 \<and>
   buildSettlementPlan zeroSumBalances =
     Some [\<lparr>from = ''b'', to = ''a'', amount = num 1000\<rparr>,
           \<lparr>from = ''c'', to = ''a'', amount = num 1000\<rparr>] \<and>
   statedBalance ''a'' zeroSumBalances
     [\<lparr>from = ''b'', to = ''a'', amount = num 1000\<rparr>,
      \<lparr>from = ''c'', to = ''a'', amount = num 1000\<rparr>] = num 4000 \<and>
   statedBalance ''b'' zeroSumBalances
     [\<lparr>from = ''b'', to = ''a'', amount = num 1000\<rparr>,
      \<lparr>from = ''c'', to = ''a'', amount = num 1000\<rparr>] = num (- 2000) \<and>
   num 4000 \<noteq> 0 \<and>
   sumNumbers (map roundedDiff largeZeroSum) = 0 \<and>
   sum_list (map (\<lambda>b. val (roundedDiff b)) largeZeroSum) = 0 \<and>
   positiveSum (map roundedDiff largeZeroSum) = 2 ^ 53 + 2 \<and>
   negativeSum (map roundedDiff largeZeroSum) = 2 ^ 53 + 2 \<and>
   settleLoop (initialState largeZeroSum) =
     Some \<lparr>debtors = [\<lparr>id = ''d'', amount = num 0\<rparr>],
           creditors = [\<lparr>id = ''a'', amount = num 0\<rparr>, \<lparr>id = ''b'', amount = num 0\<rparr>,
                        \<lparr>id = ''c'', amount = num 1\<rparr>],
           settlements = [\<lparr>from = ''d'', to = ''a'', amount = num 1\<rparr>,
                          \<lparr>from = ''d'', to = ''b'', amount = num 1\<rparr>,
                          \<lparr>from = ''d'', to = ''c'', amount = num (2 ^ 53 - 1)\<rparr>],
           debtorIndex = 1, creditorIndex = 2\<rparr> \<and>
   buildSettlementPlan largeZeroSum =
     Some [\<lparr>from = ''d'', to = ''a'', amount = num 1\<rparr>,
           \<lparr>from = ''d'', to = ''b'', amount = num 1\<rparr>,
           \<lparr>from = ''d'', to = ''c'', amount = num (2 ^ 53 - 1)\<rparr>] \<and>
   settledBalance ''c'' largeZeroSum
     [\<lparr>from = ''d'', to = ''a'', amount = num 1\<rparr>,
      \<lparr>from = ''d'', to = ''b'', amount = num 1\<rparr>,
      \<lparr>from = ''d'', to = ''c'', amount = num (2 ^ 53 - 1)\<rparr>] = num 1 \<and>
   num 1 \<noteq> 0 \<and>
   sumNumbers (map roundedDiff fractionalZeroSum) = 0 \<and>
   sum_list (map (\<lambda>b. val (roundedDiff b)) fractionalZeroSum) = 0 \<and>
   settleLoop (initialState fractionalZeroSum) =
     Some \<lparr>debtors = [\<lparr>id = ''d'', amount = num 0\<rparr>],
           creditors = [\<lparr>id = ''a'', amount = num 0\<rparr>, \<lparr>id = ''b'', amount = num 0\<rparr>,
                        \<lparr>id = ''c'', amount = num (1 / 2 ^ 52)\<rparr>],
           settlements = [\<lparr>from = ''d'', to = ''a'', amount = num (1 / 2 ^ 52)\<rparr>,
                          \<lparr>from = ''d'', to = ''b'', amount = num (1 / 2 ^ 52)\<rparr>,
                          \<lparr>from = ''d'', to = ''c'', amount = num (2 - 1 / 2 ^ 52)\<rparr>],
           debtorIndex = 1, creditorIndex = 2\<rparr> \<and>
   settledBalance ''c'' fractionalZeroSum
     [\<lparr>from = ''d'', to = ''a'', amount = num (1 / 2 ^ 52)\<rparr>,
      \<lparr>from = ''d'', to = ''b'', amount = num (1 / 2 ^ 52)\<rparr>,
      \<lparr>from = ''d'', to = ''c'', amount = num (2 - 1 / 2 ^ 52)\<rparr>] = num (1 / 2 ^ 52) \<and>
   num (1 / 2 ^ 52) \<noteq> 0"
proof -
  note ev = number_eval representable_above_2_53 num_2_53_plus_1
  note fv = number_eval representable_fractions num_above_2
  have a: "sumNumbers (map roundedDiff zeroSumBalances) = 0"
    by (simp add: zeroSumBalances_def roundedOf_def sumNumbers_def number_eval)
  have b: "statedBalance ''a'' zeroSumBalances
     [\<lparr>from = ''b'', to = ''a'', amount = num 1000\<rparr>,
      \<lparr>from = ''c'', to = ''a'', amount = num 1000\<rparr>] = num 4000"
    "statedBalance ''b'' zeroSumBalances
     [\<lparr>from = ''b'', to = ''a'', amount = num 1000\<rparr>,
      \<lparr>from = ''c'', to = ''a'', amount = num 1000\<rparr>] = num (- 2000)"
    "num 4000 \<noteq> 0" "num 1 \<noteq> 0"
    by (simp_all add: zeroSumBalances_def roundedOf_def example_defs statedBalance_def
        balanceOfId_def sentBy_def receivedBy_def sumNumbers_def number_eval)
  have c: "sumNumbers (map roundedDiff largeZeroSum) = 0"
    by (simp add: largeZeroSum_def roundedOf_def sumNumbers_def ev)
  have c': "sum_list (map (\<lambda>b. val (roundedDiff b)) largeZeroSum) = 0"
    "positiveSum (map roundedDiff largeZeroSum) = 2 ^ 53 + 2"
    "negativeSum (map roundedDiff largeZeroSum) = 2 ^ 53 + 2"
    by (simp_all add: largeZeroSum_def roundedOf_def isInteger_numeral ev)
  have i: "initialState largeZeroSum =
     \<lparr>debtors = [\<lparr>id = ''d'', amount = num 9007199254740994\<rparr>],
      creditors = [\<lparr>id = ''a'', amount = num 1\<rparr>, \<lparr>id = ''b'', amount = num 1\<rparr>,
                   \<lparr>id = ''c'', amount = num 9007199254740992\<rparr>],
      settlements = [], debtorIndex = 0, creditorIndex = 0\<rparr>"
    by (simp add: initialState_def classify_def largeZeroSum_def roundedOf_def example_defs ev)
  have l: "settleLoop (initialState largeZeroSum) =
     Some \<lparr>debtors = [\<lparr>id = ''d'', amount = num 0\<rparr>],
           creditors = [\<lparr>id = ''a'', amount = num 0\<rparr>, \<lparr>id = ''b'', amount = num 0\<rparr>,
                        \<lparr>id = ''c'', amount = num 1\<rparr>],
           settlements = [\<lparr>from = ''d'', to = ''a'', amount = num 1\<rparr>,
                          \<lparr>from = ''d'', to = ''b'', amount = num 1\<rparr>,
                          \<lparr>from = ''d'', to = ''c'', amount = num (2 ^ 53 - 1)\<rparr>],
           debtorIndex = 1, creditorIndex = 2\<rparr>"
    by (simp add: i settleLoop_continue settleLoop_stop loopCondition_def loopBody_def ev Let_def)
  have p: "buildSettlementPlan largeZeroSum =
     Some [\<lparr>from = ''d'', to = ''a'', amount = num 1\<rparr>,
           \<lparr>from = ''d'', to = ''b'', amount = num 1\<rparr>,
           \<lparr>from = ''d'', to = ''c'', amount = num (2 ^ 53 - 1)\<rparr>]"
    by (simp add: buildSettlementPlan_def l)
  have s: "settledBalance ''c'' largeZeroSum
     [\<lparr>from = ''d'', to = ''a'', amount = num 1\<rparr>,
      \<lparr>from = ''d'', to = ''b'', amount = num 1\<rparr>,
      \<lparr>from = ''d'', to = ''c'', amount = num (2 ^ 53 - 1)\<rparr>] = num 1"
    by (simp add: largeZeroSum_def roundedOf_def example_defs settledBalance_def
        balanceOfId_def sentBy_def receivedBy_def sumNumbers_def ev)
  have f: "sumNumbers (map roundedDiff fractionalZeroSum) = 0"
    by (simp add: fractionalZeroSum_def roundedOf_def sumNumbers_def fv)
  have f': "sum_list (map (\<lambda>b. val (roundedDiff b)) fractionalZeroSum) = 0"
    by (simp add: fractionalZeroSum_def roundedOf_def fv)
  have g: "settleLoop (initialState fractionalZeroSum) =
     Some \<lparr>debtors = [\<lparr>id = ''d'', amount = num 0\<rparr>],
           creditors = [\<lparr>id = ''a'', amount = num 0\<rparr>, \<lparr>id = ''b'', amount = num 0\<rparr>,
                        \<lparr>id = ''c'', amount = num (1 / 2 ^ 52)\<rparr>],
           settlements = [\<lparr>from = ''d'', to = ''a'', amount = num (1 / 2 ^ 52)\<rparr>,
                          \<lparr>from = ''d'', to = ''b'', amount = num (1 / 2 ^ 52)\<rparr>,
                          \<lparr>from = ''d'', to = ''c'', amount = num (2 - 1 / 2 ^ 52)\<rparr>],
           debtorIndex = 1, creditorIndex = 2\<rparr>"
    by (simp add: initialState_def classify_def fractionalZeroSum_def roundedOf_def example_defs
        settleLoop_continue settleLoop_stop loopCondition_def loopBody_def Let_def fv)
  have h: "settledBalance ''c'' fractionalZeroSum
     [\<lparr>from = ''d'', to = ''a'', amount = num (1 / 2 ^ 52)\<rparr>,
      \<lparr>from = ''d'', to = ''b'', amount = num (1 / 2 ^ 52)\<rparr>,
      \<lparr>from = ''d'', to = ''c'', amount = num (2 - 1 / 2 ^ 52)\<rparr>] = num (1 / 2 ^ 52)"
    "num (1 / 2 ^ 52) \<noteq> 0"
    by (simp_all add: fractionalZeroSum_def roundedOf_def example_defs settledBalance_def
        balanceOfId_def sentBy_def receivedBy_def sumNumbers_def fv)
  show ?thesis using a zeroSum_plan b c c' l p s f f' g h by simp
qed

subsection \<open>C9: unequal totals\<close>

text \<open>
  C9 (as amended). For every input balance list of whole numbers, the positive ones
  summing to at most \<open>2^53\<close> and the negative ones to at least \<open>-2^53\<close>, whose positive
  diffs and negative diffs have unequal totals, \<open>buildSettlementPlan\<close> returns (no error,
  no endless loop), its loop stops with exactly one of the two lists exhausted, and the
  amounts of the emitted entries sum to the smaller of the two totals: the rest of the
  larger side is dropped. All sums are the ones JavaScript computes, from left to right.
\<close>

theorem unequal_totals_truncate:
  assumes "safeIntegers (map roundedDiff balances)"
    and "creditTotal balances \<noteq> debitTotal balances"
  shows "\<exists>s'. settleLoop (initialState balances) = Some s' \<and>
           buildSettlementPlan balances = Some (settlements s') \<and>
           (debtorIndex s' = length (debtors s')) \<noteq> (creditorIndex s' = length (creditors s')) \<and>
           sumNumbers (map SettlementEntry.amount (settlements s'))
             = Math_min (creditTotal balances) (debitTotal balances)"
proof -
  let ?D = "debtorsOf balances" and ?C = "creditorsOf balances"
  let ?T = "\<lambda>k::string. True"
  from totals_exact[OF assms(1)] obtain c d :: int where
    c: "creditTotal balances = num (of_int c)" "of_int c = weight ?T ?C" "\<bar>of_int c :: rat\<bar> \<le> 2 ^ 53"
    and d: "debitTotal balances = num (of_int d)" "of_int d = weight ?T ?D" "\<bar>of_int d :: rat\<bar> \<le> 2 ^ 53"
    by blast
  note C = num_of_int[OF c(3)] and D = num_of_int[OF d(3)]
  have ne: "c \<noteq> d" using assms(2) c(1) d(1) by auto
  from whole_plan[OF assms(1)] obtain es dl cl where
    g: "greedy ?D ?C = Some (es, dl, cl)" and ex: "dl = [] \<or> cl = []"
    and wd: "wholeAmounts dl" and wc: "wholeAmounts cl"
    and we: "\<forall>e\<in>set es. isInteger (SettlementEntry.amount e) \<and> 0 < SettlementEntry.amount e"
    and sb: "sent ?T es \<le> 2 ^ 53"
    and cd: "\<And>Q. sent Q es + weight Q dl = weight Q ?D"
    and cc: "\<And>R. received R es + weight R cl = weight R ?C"
    by blast
  from entries_exact[OF we sb, of "\<lambda>e. True"] obtain t :: int where
    t: "sumNumbers (map SettlementEntry.amount es) = num (of_int t)" "of_int t = sent ?T es"
    by (auto simp: sent_def)
  have td: "of_int t + weight ?T dl = (of_int d :: rat)" using cd[of ?T] t(2) d(2) by simp
  have tc: "of_int t + weight ?T cl = (of_int c :: rat)"
    using cc[of ?T] t(2) c(2) by (simp add: received_all)
  have x: "(dl = []) \<noteq> (cl = [])"
  proof
    assume "(dl = []) = (cl = [])"
    then have "dl = []" "cl = []" using ex by auto
    then have "(of_int c :: rat) = of_int d" using td tc by simp
    then show False using ne by simp
  qed
  have min: "num (of_int t) = Math_min (num (of_int c)) (num (of_int d))"
  proof (cases "dl = []")
    case True
    then have "cl \<noteq> []" using x by simp
    then have "0 < weight ?T cl" using weight_all_positive[OF wc] by simp
    then have "(of_int t :: rat) = of_int d" "(of_int d :: rat) < of_int c"
      using td tc True by simp_all
    then have "t = d" "\<not> c < d" by simp_all
    then show ?thesis using C(4) D(4) by (simp add: Math_min_def num_less num_distinct)
  next
    case False
    then have "cl = []" using ex by simp
    have "0 < weight ?T dl" using weight_all_positive[OF wd False] .
    then have "(of_int t :: rat) = of_int c" "(of_int c :: rat) < of_int d"
      using td tc \<open>cl = []\<close> by simp_all
    then have "t = c" "c < d" by simp_all
    then show ?thesis using C(4) D(4) by (simp add: Math_min_def num_less num_distinct)
  qed
  from settleLoop_initial_Some[OF g] obtain s' where
    "settleLoop (initialState balances) = Some s'" "settlements s' = es"
    "buildSettlementPlan balances = Some es"
    "(debtorIndex s' = length (debtors s')) = (dl = [])"
    "(creditorIndex s' = length (creditors s')) = (cl = [])"
    by blast
  then show ?thesis using x min t(1) c(1) d(1) by auto
qed

theorem unequal_totals_truncate_witness:
  "safeIntegers (map roundedDiff unequalBalances) \<and>
   creditTotal unequalBalances \<noteq> debitTotal unequalBalances \<and>
   creditTotal unequalBalances = num 300 \<and> debitTotal unequalBalances = num 200 \<and>
   buildSettlementPlan unequalBalances =
     Some [\<lparr>from = ''b'', to = ''a'', amount = num 100\<rparr>,
           \<lparr>from = ''c'', to = ''a'', amount = num 100\<rparr>] \<and>
   (\<exists>s'. settleLoop (initialState unequalBalances) = Some s' \<and>
         (debtorIndex s' = length (debtors s')) \<noteq> (creditorIndex s' = length (creditors s')) \<and>
         sumNumbers (map SettlementEntry.amount (settlements s')) = num 200)"
proof -
  have w: "safeIntegers (map roundedDiff unequalBalances)"
    by (simp add: unequalBalances_def roundedOf_def safeIntegers_eval isInteger_numeral
        representable_numeral)
  have c: "creditTotal unequalBalances = num 300"
    by (simp add: creditTotal_def unequalBalances_def roundedOf_def sumNumbers_def number_eval)
  have d: "debitTotal unequalBalances = num 200"
    by (simp add: debitTotal_def unequalBalances_def roundedOf_def sumNumbers_def number_eval)
  have ne: "creditTotal unequalBalances \<noteq> debitTotal unequalBalances"
    using c d by (simp add: number_eval)
  from unequal_totals_truncate[OF w ne] obtain s' where
    s': "settleLoop (initialState unequalBalances) = Some s'"
      "(debtorIndex s' = length (debtors s')) \<noteq> (creditorIndex s' = length (creditors s'))"
      "sumNumbers (map SettlementEntry.amount (settlements s')) =
         Math_min (creditTotal unequalBalances) (debitTotal unequalBalances)"
    by blast
  have "Math_min (creditTotal unequalBalances) (debitTotal unequalBalances) = num 200"
    using c d by (simp add: number_eval)
  then show ?thesis using w ne c d unequal_plan s' by auto
qed

text \<open>
  Beyond \<open>2^53\<close> the claim fails. With a credit of \<open>2^53 + 2\<close> against debts of
  \<open>1, 1, 2^53 + 2\<close> the totals are \<open>2^53 + 2\<close> and \<open>2^53 + 4\<close>; the credit less \<open>1\<close> is
  rounded to \<open>2^53\<close>, the loop emits \<open>1, 1, 2^53 - 1\<close> and stops with the creditor list
  exhausted. The emitted amounts sum to \<open>2^53 + 1\<close> as integers and to \<open>2^53\<close> as JavaScript
  adds them, not to the smaller total \<open>2^53 + 2\<close>. It fails likewise for small amounts
  that are not whole: a credit of \<open>2 + 2^-51\<close> against debts of \<open>2^-52, 2^-52, 2 + 2^-51\<close>
  gives entries that sum to \<open>2\<close>.
\<close>

theorem unequal_totals_counterexample:
  "creditTotal largeUnequal = num (2 ^ 53 + 2) \<and>
   debitTotal largeUnequal = num (2 ^ 53 + 4) \<and>
   creditTotal largeUnequal \<noteq> debitTotal largeUnequal \<and>
   Math_min (creditTotal largeUnequal) (debitTotal largeUnequal) = num (2 ^ 53 + 2) \<and>
   val (num (2 ^ 53 + 2)) = 2 ^ 53 + 2 \<and>
   positiveSum (map roundedDiff largeUnequal) = 2 ^ 53 + 2 \<and>
   negativeSum (map roundedDiff largeUnequal) = 2 ^ 53 + 4 \<and>
   buildSettlementPlan largeUnequal =
     Some [\<lparr>from = ''b'', to = ''a'', amount = num 1\<rparr>,
           \<lparr>from = ''c'', to = ''a'', amount = num 1\<rparr>,
           \<lparr>from = ''d'', to = ''a'', amount = num (2 ^ 53 - 1)\<rparr>] \<and>
   sumNumbers (map SettlementEntry.amount
     [\<lparr>from = ''b'', to = ''a'', amount = num 1\<rparr>,
      \<lparr>from = ''c'', to = ''a'', amount = num 1\<rparr>,
      \<lparr>from = ''d'', to = ''a'', amount = num (2 ^ 53 - 1)\<rparr>]) = num (2 ^ 53) \<and>
   sum_list (map (\<lambda>e. val (SettlementEntry.amount e))
     [\<lparr>from = ''b'', to = ''a'', amount = num 1\<rparr>,
      \<lparr>from = ''c'', to = ''a'', amount = num 1\<rparr>,
      \<lparr>from = ''d'', to = ''a'', amount = num (2 ^ 53 - 1)\<rparr>]) = 2 ^ 53 + 1 \<and>
   num (2 ^ 53) \<noteq> num (2 ^ 53 + 2) \<and>
   creditTotal fractionalUnequal = num (2 + 1 / 2 ^ 51) \<and>
   debitTotal fractionalUnequal = num (2 + 1 / 2 ^ 50) \<and>
   creditTotal fractionalUnequal \<noteq> debitTotal fractionalUnequal \<and>
   Math_min (creditTotal fractionalUnequal) (debitTotal fractionalUnequal) = num (2 + 1 / 2 ^ 51) \<and>
   buildSettlementPlan fractionalUnequal =
     Some [\<lparr>from = ''b'', to = ''a'', amount = num (1 / 2 ^ 52)\<rparr>,
           \<lparr>from = ''c'', to = ''a'', amount = num (1 / 2 ^ 52)\<rparr>,
           \<lparr>from = ''d'', to = ''a'', amount = num (2 - 1 / 2 ^ 52)\<rparr>] \<and>
   sumNumbers (map SettlementEntry.amount
     [\<lparr>from = ''b'', to = ''a'', amount = num (1 / 2 ^ 52)\<rparr>,
      \<lparr>from = ''c'', to = ''a'', amount = num (1 / 2 ^ 52)\<rparr>,
      \<lparr>from = ''d'', to = ''a'', amount = num (2 - 1 / 2 ^ 52)\<rparr>]) = num 2 \<and>
   num 2 \<noteq> num (2 + 1 / 2 ^ 51)"
proof -
  note ev = number_eval representable_above_2_53 num_2_53_plus_1
  note fv = number_eval representable_fractions num_above_2
  have c: "creditTotal largeUnequal = num (2 ^ 53 + 2)"
    by (simp add: creditTotal_def largeUnequal_def roundedOf_def sumNumbers_def ev)
  have d: "debitTotal largeUnequal = num (2 ^ 53 + 4)"
    by (simp add: debitTotal_def largeUnequal_def roundedOf_def sumNumbers_def ev)
  have ne: "creditTotal largeUnequal \<noteq> debitTotal largeUnequal"
    "Math_min (creditTotal largeUnequal) (debitTotal largeUnequal) = num (2 ^ 53 + 2)"
    "num (2 ^ 53) \<noteq> num (2 ^ 53 + 2)" "val (num (2 ^ 53 + 2)) = 2 ^ 53 + 2"
    by (simp_all add: c d isInteger_numeral ev)
  have w: "positiveSum (map roundedDiff largeUnequal) = 2 ^ 53 + 2"
    "negativeSum (map roundedDiff largeUnequal) = 2 ^ 53 + 4"
    by (simp_all add: largeUnequal_def roundedOf_def isInteger_numeral ev)
  have p: "buildSettlementPlan largeUnequal =
     Some [\<lparr>from = ''b'', to = ''a'', amount = num 1\<rparr>,
           \<lparr>from = ''c'', to = ''a'', amount = num 1\<rparr>,
           \<lparr>from = ''d'', to = ''a'', amount = num (2 ^ 53 - 1)\<rparr>]"
    by (simp add: plan_eval largeUnequal_def example_defs ev)
  have s: "sumNumbers (map SettlementEntry.amount
     [\<lparr>from = ''b'', to = ''a'', amount = num 1\<rparr>,
      \<lparr>from = ''c'', to = ''a'', amount = num 1\<rparr>,
      \<lparr>from = ''d'', to = ''a'', amount = num (2 ^ 53 - 1)\<rparr>]) = num (2 ^ 53)"
    by (simp add: sumNumbers_def ev)
  have e: "sum_list (map (\<lambda>e. val (SettlementEntry.amount e))
     [\<lparr>from = ''b'', to = ''a'', amount = num 1\<rparr>,
      \<lparr>from = ''c'', to = ''a'', amount = num 1\<rparr>,
      \<lparr>from = ''d'', to = ''a'', amount = num (2 ^ 53 - 1)\<rparr>]) = 2 ^ 53 + 1"
    by (simp add: isInteger_numeral ev)
  have fc: "creditTotal fractionalUnequal = num (2 + 1 / 2 ^ 51)"
    by (simp add: creditTotal_def fractionalUnequal_def roundedOf_def sumNumbers_def fv)
  have fd: "debitTotal fractionalUnequal = num (2 + 1 / 2 ^ 50)"
    by (simp add: debitTotal_def fractionalUnequal_def roundedOf_def sumNumbers_def fv)
  have fne: "creditTotal fractionalUnequal \<noteq> debitTotal fractionalUnequal"
    "Math_min (creditTotal fractionalUnequal) (debitTotal fractionalUnequal) = num (2 + 1 / 2 ^ 51)"
    "num 2 \<noteq> num (2 + 1 / 2 ^ 51)"
    by (simp_all add: fc fd fv)
  have fp: "buildSettlementPlan fractionalUnequal =
     Some [\<lparr>from = ''b'', to = ''a'', amount = num (1 / 2 ^ 52)\<rparr>,
           \<lparr>from = ''c'', to = ''a'', amount = num (1 / 2 ^ 52)\<rparr>,
           \<lparr>from = ''d'', to = ''a'', amount = num (2 - 1 / 2 ^ 52)\<rparr>]"
    by (simp add: plan_eval fractionalUnequal_def example_defs fv)
  have fs: "sumNumbers (map SettlementEntry.amount
     [\<lparr>from = ''b'', to = ''a'', amount = num (1 / 2 ^ 52)\<rparr>,
      \<lparr>from = ''c'', to = ''a'', amount = num (1 / 2 ^ 52)\<rparr>,
      \<lparr>from = ''d'', to = ''a'', amount = num (2 - 1 / 2 ^ 52)\<rparr>]) = num 2"
    by (simp add: sumNumbers_def fv)
  show ?thesis using c d ne w p s e fc fd fne fp fs by simp
qed

end
